theory Spec2Isabelle
  imports Complex_Main "HOL-Library.Log_Nat"
begin

section \<open>Binary64 arithmetic\<close>

text \<open>
  The program computes with Python floats, which are IEEE 754 binary64 numbers. A float is
  modelled by the rational number it denotes, and every arithmetic operation returns the
  exact result rounded to the nearest number with a 53-bit significand, ties to even.
  The exponent range is not bounded: every quantity of the program lies between
  \<open>2 ^ - 60\<close> and \<open>2 ^ 9\<close> in magnitude (or is zero), far from overflow and from the
  subnormal numbers, so the bounded format rounds the same way. NaN and the infinities do
  not arise in the generator; the one place where pandas produces NaN (the mean of an
  empty column) is modelled by \<open>None\<close>.
\<close>

type_synonym float64 = rat

text \<open>Rounding a rational to the nearest integer, ties to the even neighbour.\<close>

definition round_half_even :: "rat \<Rightarrow> int" where
  "round_half_even x =
     (let f = \<lfloor>x\<rfloor>; d = x - of_int f
      in if d < 1 / 2 then f else if 1 / 2 < d then f + 1 else if even f then f else f + 1)"

text \<open>The binary exponent of a positive rational: \<open>2 powi ilog2 x \<le> x < 2 powi (ilog2 x + 1)\<close>.\<close>

definition ilog2 :: "rat \<Rightarrow> int" where
  "ilog2 x = (if 1 \<le> x then bitlen \<lfloor>x\<rfloor> - 1 else - bitlen (\<lceil>1 / x\<rceil> - 1))"

definition fl_pos :: "rat \<Rightarrow> float64" where
  "fl_pos x =
     (if x = 0 then 0
      else let u = 2 powi (ilog2 x - 52) in of_int (round_half_even (x / u)) * u)"

text \<open>
  \<open>fl x\<close> is the binary64 number nearest to \<open>x\<close>. Binary64 is a sign-magnitude format, so
  a negative number rounds as its magnitude does. A decimal literal of the source such as
  \<open>0.4\<close> denotes \<open>fl (4 / 10)\<close>.
\<close>

definition fl :: "rat \<Rightarrow> float64" where
  "fl x = (if x < 0 then - fl_pos (- x) else fl_pos x)"

definition fadd :: "float64 \<Rightarrow> float64 \<Rightarrow> float64" where
  "fadd x y = fl (x + y)"

definition fsub :: "float64 \<Rightarrow> float64 \<Rightarrow> float64" where
  "fsub x y = fl (x - y)"

definition fmul :: "float64 \<Rightarrow> float64 \<Rightarrow> float64" where
  "fmul x y = fl (x * y)"

definition fdiv :: "float64 \<Rightarrow> float64 \<Rightarrow> float64" where
  "fdiv x y = fl (x / y)"

text \<open>
  Python's \<open>round(x, ndigits)\<close> on a float: the exact value of \<open>x\<close> is rounded to
  \<open>ndigits\<close> decimal places, ties to even, and the decimal result is converted back to
  the nearest float.
\<close>

definition py_round :: "float64 \<Rightarrow> nat \<Rightarrow> float64" where
  "py_round x ndigits = fl (of_int (round_half_even (x * 10 ^ ndigits)) / 10 ^ ndigits)"

text \<open>A float is rounded to \<open>n\<close> decimals when rounding it again leaves it unchanged.\<close>

definition is_rounded :: "nat \<Rightarrow> float64 \<Rightarrow> bool" where
  "is_rounded n x = (py_round x n = x)"

section \<open>The reading generator\<close>

text \<open>
  The dictionary returned by \<open>generate_buoy_reading\<close>, with the keys of the source.
  \<open>time\<close> is the value of \<open>pd.Timestamp.now()\<close> in nanoseconds.
\<close>

record reading =
  time :: nat
  buoy :: string
  lat :: float64
  lon :: float64
  temp :: float64
  depth :: float64
  sound :: float64
  wave :: float64
  whale_prob :: float64

text \<open>
  The generator calls \<open>random.uniform\<close> seven times. Each call reads one value of
  \<open>random.random()\<close>, a float in the interval from 0 (included) to 1 (excluded); the
  seven values are the input of the model, in the order of the calls.
\<close>

record rands =
  r_lat :: float64
  r_lon :: float64
  r_temp :: float64
  r_depth :: float64
  r_sound :: float64
  r_wave :: float64
  r_jitter :: float64

definition unit_draw :: "float64 \<Rightarrow> bool" where
  "unit_draw r = (0 \<le> r \<and> r < 1)"

definition valid_rands :: "rands \<Rightarrow> bool" where
  "valid_rands rs =
     (unit_draw (r_lat rs) \<and> unit_draw (r_lon rs) \<and> unit_draw (r_temp rs) \<and>
      unit_draw (r_depth rs) \<and> unit_draw (r_sound rs) \<and> unit_draw (r_wave rs) \<and>
      unit_draw (r_jitter rs))"

text \<open>\<open>random.uniform(a, b)\<close> of the standard library is \<open>a + (b - a) * self.random()\<close>.\<close>

definition uniform :: "float64 \<Rightarrow> float64 \<Rightarrow> float64 \<Rightarrow> float64" where
  "uniform a b r = fadd a (fmul (fsub b a) r)"

text \<open>The seven raw draws of one call of the generator.\<close>

record draws =
  d_lat :: float64
  d_lon :: float64
  d_temp :: float64
  d_depth :: float64
  d_sound :: float64
  d_wave :: float64
  d_jitter :: float64

definition sample :: "rands \<Rightarrow> draws" where
  "sample rs =
     \<lparr>d_lat = uniform (- 2) 2 (r_lat rs),
      d_lon = uniform (- 2) 2 (r_lon rs),
      d_temp = uniform 5 18 (r_temp rs),
      d_depth = uniform 50 300 (r_depth rs),
      d_sound = uniform 20 120 (r_sound rs),
      d_wave = uniform (fl (5 / 10)) (fl (35 / 10)) (r_wave rs),
      d_jitter = uniform 0 (fl (2 / 10)) (r_jitter rs)\<rparr>"

text \<open>The four threshold rules: \<open>whale_prob = 0\<close> followed by the four \<open>if ...: whale_prob += c\<close>.\<close>

definition whale_rules :: "float64 \<Rightarrow> float64 \<Rightarrow> float64 \<Rightarrow> float64 \<Rightarrow> float64" where
  "whale_rules sound_v temp_v depth_v wave_v =
     (let p0 = 0;
          p1 = (if 85 < sound_v then fadd p0 (fl (4 / 10)) else p0);
          p2 = (if 8 < temp_v \<and> temp_v < 16 then fadd p1 (fl (3 / 10)) else p1);
          p3 = (if 80 < depth_v then fadd p2 (fl (2 / 10)) else p2);
          p4 = (if wave_v < 2 then fadd p3 (fl (1 / 10)) else p3)
      in p4)"

text \<open>\<open>min(1.0, whale_prob + random.uniform(0, 0.2))\<close>.\<close>

definition whale_score :: "float64 \<Rightarrow> float64 \<Rightarrow> float64 \<Rightarrow> float64 \<Rightarrow> float64 \<Rightarrow> float64" where
  "whale_score sound_v temp_v depth_v wave_v jitter =
     min 1 (fadd (whale_rules sound_v temp_v depth_v wave_v) jitter)"

definition digit_char :: "nat \<Rightarrow> char" where
  "digit_char n = ''0123456789'' ! n"

fun str_nat :: "nat \<Rightarrow> string" where
  "str_nat n = (if n < 10 then [digit_char n] else str_nat (n div 10) @ [digit_char (n mod 10)])"

declare str_nat.simps [simp del]

text \<open>The body of \<open>generate_buoy_reading\<close> once the seven draws are made.\<close>

definition reading_of :: "nat \<Rightarrow> nat \<Rightarrow> draws \<Rightarrow> reading" where
  "reading_of buoy_id now d =
     \<lparr>time = now,
      buoy = ''B-'' @ str_nat buoy_id,
      lat = fadd 34 (d_lat d),
      lon = fadd (- 120) (d_lon d),
      temp = py_round (d_temp d) 2,
      depth = py_round (d_depth d) 1,
      sound = py_round (d_sound d) 1,
      wave = py_round (d_wave d) 2,
      whale_prob =
        py_round (whale_score (d_sound d) (d_temp d) (d_depth d) (d_wave d) (d_jitter d)) 2\<rparr>"

definition generate_buoy_reading :: "nat \<Rightarrow> nat \<Rightarrow> rands \<Rightarrow> reading" where
  "generate_buoy_reading buoy_id now rs = reading_of buoy_id now (sample rs)"

section \<open>The dashboard\<close>

datatype py_error = KeyError | IndexError

text \<open>
  \<open>df.sort_values("time")\<close>. The model sorts stably; pandas' default algorithm gives no
  order among rows of equal time, so a statement about the order of the sorted rows is made
  for rows whose times differ.
\<close>

definition sort_values_time :: "reading list \<Rightarrow> reading list" where
  "sort_values_time df = sort_key time df"

text \<open>
  \<open>groupby("buoy").tail(1)\<close>: the last row of every group, the rows kept in the order of
  the frame.
\<close>

fun groupby_buoy_tail1 :: "reading list \<Rightarrow> reading list" where
  "groupby_buoy_tail1 [] = []"
| "groupby_buoy_tail1 (r # rs) =
     (if buoy r \<in> set (map buoy rs) then groupby_buoy_tail1 rs else r # groupby_buoy_tail1 rs)"

definition latest_per_buoy :: "reading list \<Rightarrow> reading list" where
  "latest_per_buoy df = groupby_buoy_tail1 (sort_values_time df)"

definition anomalous :: "reading \<Rightarrow> bool" where
  "anomalous r = (100 < sound r \<or> temp r < 6 \<or> 3 < wave r)"

definition anomaly_flags :: "reading list \<Rightarrow> bool list" where
  "anomaly_flags latest = map anomalous latest"

text \<open>\<open>latest[anomaly_flags]\<close>: the rows whose flag is set.\<close>

definition mask_rows :: "reading list \<Rightarrow> bool list \<Rightarrow> reading list" where
  "mask_rows rows flags = map fst (filter snd (zip rows flags))"

text \<open>The mean of a boolean column: the count of set flags over the count of rows, NaN when empty.\<close>

definition mean_flags :: "bool list \<Rightarrow> float64 option" where
  "mean_flags flags =
     (if flags = [] then None
      else Some (fdiv (of_nat (length (filter (\<lambda>b. b) flags))) (of_nat (length flags))))"

definition health_score :: "bool list \<Rightarrow> float64 option" where
  "health_score flags =
     (case mean_flags flags of None \<Rightarrow> None | Some m \<Rightarrow> Some (fsub 100 (fmul m 100)))"

definition tail_rows :: "nat \<Rightarrow> 'a list \<Rightarrow> 'a list" where
  "tail_rows n rows = drop (length rows - n) rows"

record payload =
  device_id :: string
  timestamp :: nat
  location_lat :: float64
  location_lon :: float64
  sensors_temp :: float64
  sensors_depth :: float64
  sensors_sound :: float64
  sensors_wave :: float64
  ai_whale_probability :: float64
  ai_alert :: bool

definition cloud_msg_of :: "reading \<Rightarrow> payload" where
  "cloud_msg_of latest_row =
     \<lparr>device_id = buoy latest_row,
      timestamp = time latest_row,
      location_lat = lat latest_row,
      location_lon = lon latest_row,
      sensors_temp = temp latest_row,
      sensors_depth = depth latest_row,
      sensors_sound = sound latest_row,
      sensors_wave = wave latest_row,
      ai_whale_probability = whale_prob latest_row,
      ai_alert = (fl (7 / 10) < whale_prob latest_row)\<rparr>"

text \<open>What one iteration of the live loop shows.\<close>

record frame =
  step_no :: nat
  total_signals :: nat
  active_buoys :: nat
  whale_alerts :: nat
  table_rows :: "reading list"
  latest_view :: "reading list"
  anomaly_rows :: "reading list"
  health :: "float64 option"
  alert_rows :: "reading list"
  cloud_msg :: payload
  topic :: string
  csv_rows :: "reading list"

text \<open>
  The rendering of one iteration, from \<open>df = pd.DataFrame(st.session_state.buoy_data)\<close> to the
  download buttons. A frame without rows has no column \<open>"buoy"\<close>, and \<open>iloc[-1]\<close> of an
  empty view raises.
\<close>

definition render :: "nat \<Rightarrow> reading list \<Rightarrow> py_error + frame" where
  "render step df =
     (if df = [] then Inl KeyError
      else
        let latest = latest_per_buoy df;
            flags = anomaly_flags latest;
            alerts = filter (\<lambda>r. fl (7 / 10) < whale_prob r) df
        in case rev latest of
             [] \<Rightarrow> Inl IndexError
           | latest_row # _ \<Rightarrow>
               Inr \<lparr>step_no = step,
                    total_signals = length df,
                    active_buoys = card (set (map buoy df)),
                    whale_alerts = length alerts,
                    table_rows = tail_rows 10 df,
                    latest_view = latest,
                    anomaly_rows = mask_rows latest flags,
                    health = health_score flags,
                    alert_rows = tail_rows 50 alerts,
                    cloud_msg = cloud_msg_of latest_row,
                    topic = ''ocean/buoys/'' @ buoy latest_row @ ''/telemetry'',
                    csv_rows = df\<rparr>)"

text \<open>
  The session state of Streamlit: a key is absent (\<open>None\<close>) until the script sets it.
\<close>

record session_state =
  buoy_data :: "reading list option"
  running :: "bool option"

text \<open>The sidebar sliders and the two buttons of one script run.\<close>

record controls =
  update_speed :: nat
  num_buoys :: nat
  start_clicked :: bool
  stop_clicked :: bool

text \<open>
  What the loop reads from outside: the clock and the random numbers of buoy \<open>i\<close> in
  iteration \<open>step\<close>, and \<open>flag_write step\<close>, a write to \<open>st.session_state.running\<close> made
  from outside while iteration \<open>step\<close> runs (\<open>None\<close>: no write).
\<close>

record env =
  clock :: "nat \<Rightarrow> nat \<Rightarrow> nat"
  rnd :: "nat \<Rightarrow> nat \<Rightarrow> rands"
  flag_write :: "nat \<Rightarrow> bool option"

text \<open>\<open>if "buoy_data" not in st.session_state: ...\<close> and the same for \<open>running\<close>.\<close>

definition session_init :: "session_state \<Rightarrow> session_state" where
  "session_init st =
     \<lparr>buoy_data = (case buoy_data st of None \<Rightarrow> Some [] | Some rows \<Rightarrow> Some rows),
      running = (case running st of None \<Rightarrow> Some False | Some b \<Rightarrow> Some b)\<rparr>"

text \<open>The rows that \<open>st.session_state.buoy_data\<close> holds; none while the key is absent.\<close>

definition log_of :: "session_state \<Rightarrow> reading list" where
  "log_of st = (case buoy_data st of None \<Rightarrow> [] | Some rows \<Rightarrow> rows)"

text \<open>The Start button, then the Stop button.\<close>

definition press_buttons :: "controls \<Rightarrow> session_state \<Rightarrow> session_state" where
  "press_buttons ui st =
     (let st1 = (if start_clicked ui then st\<lparr>running := Some True\<rparr> else st);
          st2 = (if stop_clicked ui then st1\<lparr>running := Some False\<rparr> else st1)
      in st2)"

text \<open>\<open>[generate_buoy_reading(i+1) for i in range(num_buoys)]\<close>.\<close>

definition new_rows :: "env \<Rightarrow> nat \<Rightarrow> nat \<Rightarrow> reading list" where
  "new_rows e step n =
     map (\<lambda>i. generate_buoy_reading (i + 1) (clock e step i) (rnd e step i)) [0..<n]"

record run_result =
  final :: session_state
  frames :: "frame list"
  raised :: "py_error option"
  warned :: bool

text \<open>
  The \<open>for step in range(50)\<close> loop over the steps still to run. The state is the log, the
  flag and the frames shown so far. An exception leaves the loop with the log already
  extended.
\<close>

fun live_loop ::
  "env \<Rightarrow> nat \<Rightarrow> nat list \<Rightarrow> reading list \<Rightarrow> bool \<Rightarrow> frame list \<Rightarrow> run_result" where
  "live_loop e n [] rows flag shown =
     \<lparr>final = \<lparr>buoy_data = Some rows, running = Some flag\<rparr>,
      frames = shown, raised = None, warned = False\<rparr>"
| "live_loop e n (step # steps) rows flag shown =
     (let rows' = rows @ new_rows e step n
      in case render step rows' of
           Inl err \<Rightarrow>
             \<lparr>final = \<lparr>buoy_data = Some rows', running = Some flag\<rparr>,
              frames = shown, raised = Some err, warned = False\<rparr>
         | Inr fr \<Rightarrow>
             let flag' = (case flag_write e step of None \<Rightarrow> flag | Some b \<Rightarrow> b)
             in if \<not> flag'
                then \<lparr>final = \<lparr>buoy_data = Some rows', running = Some flag'\<rparr>,
                      frames = shown @ [fr], raised = None, warned = False\<rparr>
                else live_loop e n steps rows' flag' (shown @ [fr]))"

definition run_iot_buoy :: "env \<Rightarrow> controls \<Rightarrow> session_state \<Rightarrow> run_result" where
  "run_iot_buoy e ui st0 =
     (let st = press_buttons ui (session_init st0)
      in case (buoy_data st, running st) of
           (Some rows, Some True) \<Rightarrow> live_loop e (num_buoys ui) [0..<50] rows True []
         | _ \<Rightarrow> \<lparr>final = st, frames = [], raised = None, warned = True\<rparr>)"

text \<open>
  The number of iterations that the loop over \<open>steps\<close> runs when it is entered with the
  flag set: every step up to and including the first one during which the flag is cleared.
\<close>

abbreviation ticks_done :: "env \<Rightarrow> nat list \<Rightarrow> nat" where
  "ticks_done e steps \<equiv>
     min (length steps) (length (takeWhile (\<lambda>s. flag_write e s \<noteq> Some False) steps) + 1)"

text \<open>The log after the iterations \<open>steps\<close>, each appending its new rows.\<close>

abbreviation log_after :: "env \<Rightarrow> nat \<Rightarrow> reading list \<Rightarrow> nat list \<Rightarrow> reading list" where
  "log_after e n rows steps \<equiv> rows @ concat (map (\<lambda>s. new_rows e s n) steps)"

section \<open>Sample inputs\<close>

text \<open>Random numbers, an environment and controls at which the theorems below are instantiated.\<close>

definition mid_rands :: rands where
  "mid_rands =
     \<lparr>r_lat = 1 / 2, r_lon = 1 / 2, r_temp = 1 / 2, r_depth = 1 / 2, r_sound = 1 / 2,
      r_wave = 1 / 2, r_jitter = 1 / 2\<rparr>"

definition fine_rands :: rands where
  "fine_rands =
     \<lparr>r_lat = 1 / 1024, r_lon = 1 / 2, r_temp = 1 / 2, r_depth = 1 / 2, r_sound = 45 / 64,
      r_wave = 1 / 2, r_jitter = 1 / 2\<rparr>"

definition full_draws :: "float64 \<Rightarrow> draws" where
  "full_draws j =
     \<lparr>d_lat = 0, d_lon = 0, d_temp = 10, d_depth = 100, d_sound = 90, d_wave = 1, d_jitter = j\<rparr>"

definition steady_env :: env where
  "steady_env =
     \<lparr>clock = (\<lambda>step i. 10 * step + i + 1), rnd = (\<lambda>step i. mid_rands),
      flag_write = (\<lambda>step. None)\<rparr>"

definition stopping_env :: env where
  "stopping_env = steady_env\<lparr>flag_write := (\<lambda>step. if step = 1 then Some False else None)\<rparr>"

definition start_ui :: controls where
  "start_ui = \<lparr>update_speed = 2, num_buoys = 3, start_clicked = True, stop_clicked = False\<rparr>"

definition fresh_session :: session_state where
  "fresh_session = \<lparr>buoy_data = None, running = None\<rparr>"

definition calm_row :: "string \<Rightarrow> nat \<Rightarrow> reading" where
  "calm_row b t =
     \<lparr>time = t, buoy = b, lat = 34, lon = - 120, temp = 10, depth = 100, sound = 50, wave = 1,
      whale_prob = 1 / 2\<rparr>"

definition loud_row :: "string \<Rightarrow> nat \<Rightarrow> reading" where
  "loud_row b t = (calm_row b t)\<lparr>sound := 105\<rparr>"

definition sample_log :: "reading list" where
  "sample_log = [loud_row ''B-1'' 1, calm_row ''B-2'' 2, calm_row ''B-3'' 3]"

section \<open>Properties of the rounding functions\<close>

lemma rhe_upper: "of_int (round_half_even x) \<le> x + 1/2"
  unfolding round_half_even_def Let_def by (auto; linarith)

lemma rhe_lower: "x - 1/2 \<le> of_int (round_half_even x)"
  unfolding round_half_even_def Let_def by (auto; linarith)

lemma rhe_of_int [simp]: "round_half_even (of_int k) = k"
  unfolding round_half_even_def Let_def by simp

lemma rhe_mono: "x \<le> y \<Longrightarrow> round_half_even x \<le> round_half_even y"
proof (rule ccontr)
  assume xy: "x \<le> y" and "\<not> round_half_even x \<le> round_half_even y"
  then have "round_half_even y + 1 \<le> round_half_even x" by simp
  then have "(of_int (round_half_even y) :: rat) + 1 \<le> of_int (round_half_even x)"
    by (metis of_int_1 of_int_add of_int_le_iff)
  with rhe_upper [of x] rhe_lower [of y] xy have "x = y" by linarith
  with \<open>\<not> round_half_even x \<le> round_half_even y\<close> show False by simp
qed


lemma ilog2_lower:
  assumes "0 < x"
  shows "2 powi (ilog2 x) \<le> x"
proof (cases "1 \<le> x")
  case True
  define m where "m = \<lfloor>x\<rfloor>"
  have m: "0 < m" using True by (simp add: m_def)
  then have b1: "1 \<le> bitlen m" by (simp add: bitlen_alt_def)
  have "(2::int) ^ nat (bitlen m - 1) \<le> m" using bitlen_bounds [OF m] by simp
  then have "(of_int ((2::int) ^ nat (bitlen m - 1)) :: rat) \<le> of_int m"
    by (simp only: of_int_le_iff)
  also have "of_int m \<le> x" by (simp add: m_def)
  finally have "(2::rat) ^ nat (bitlen m - 1) \<le> x" by simp
  moreover have "ilog2 x = bitlen m - 1" using True by (simp add: ilog2_def m_def)
  ultimately show ?thesis using b1 by (simp add: power_int_nonneg_exp)
next
  case False
  define c where "c = \<lceil>1 / x\<rceil>"
  define k where "k = bitlen (c - 1)"
  have "1 < 1 / x" using False assms by simp
  then have c: "0 < c - 1" unfolding c_def by linarith
  have "c - 1 < 2 ^ nat k" using bitlen_bounds [OF c] by (simp add: k_def)
  then have "c \<le> 2 ^ nat k" by simp
  then have "(of_int c :: rat) \<le> of_int (2 ^ nat k)" by (simp only: of_int_le_iff)
  then have "(of_int c :: rat) \<le> 2 ^ nat k" by simp
  moreover have "1 / x \<le> of_int c" by (simp add: c_def)
  ultimately have "1 / x \<le> 2 ^ nat k" by linarith
  then have "1 \<le> 2 ^ nat k * x" using assms by (simp add: field_simps)
  then have "1 / 2 ^ nat k \<le> x" by (simp add: field_simps)
  moreover have "0 \<le> k" by (simp add: k_def bitlen_nonneg)
  moreover have "ilog2 x = - k" using False by (simp add: ilog2_def c_def k_def)
  ultimately show ?thesis
    by (simp add: power_int_minus_divide power_int_nonneg_exp)
qed

lemma ilog2_upper:
  assumes "0 < x"
  shows "x < 2 powi (ilog2 x + 1)"
proof (cases "1 \<le> x")
  case True
  define m where "m = \<lfloor>x\<rfloor>"
  have m: "0 < m" using True by (simp add: m_def)
  then have b1: "1 \<le> bitlen m" by (simp add: bitlen_alt_def)
  have "m < 2 ^ nat (bitlen m)" using bitlen_bounds [OF m] by simp
  then have "m + 1 \<le> 2 ^ nat (bitlen m)" by simp
  then have "(of_int (m + 1) :: rat) \<le> of_int (2 ^ nat (bitlen m))"
    by (simp only: of_int_le_iff)
  moreover have "x < of_int (m + 1)" unfolding m_def by linarith
  ultimately have "x < 2 ^ nat (bitlen m)" by simp
  moreover have "ilog2 x = bitlen m - 1" using True by (simp add: ilog2_def m_def)
  ultimately show ?thesis using b1 by (simp add: power_int_nonneg_exp)
next
  case False
  define c where "c = \<lceil>1 / x\<rceil>"
  define k where "k = bitlen (c - 1)"
  have "1 < 1 / x" using False assms by simp
  then have c: "0 < c - 1" unfolding c_def by linarith
  then have k1: "1 \<le> k" by (simp add: k_def bitlen_alt_def)
  have "2 ^ nat (k - 1) \<le> c - 1" using bitlen_bounds [OF c] by (simp add: k_def)
  then have "(of_int (2 ^ nat (k - 1)) :: rat) \<le> of_int (c - 1)"
    by (simp only: of_int_le_iff)
  moreover have "of_int (c - 1) < 1 / x" unfolding c_def by linarith
  ultimately have "2 ^ nat (k - 1) < 1 / x" by simp
  then have "2 ^ nat (k - 1) * x < 1" using assms by (simp add: field_simps)
  then have "x < 1 / 2 ^ nat (k - 1)" by (simp add: field_simps)
  moreover have "ilog2 x + 1 = - (k - 1)" using False by (simp add: ilog2_def c_def k_def)
  ultimately show ?thesis using k1
    by (simp only: power_int_minus_divide) (simp add: power_int_nonneg_exp)
qed


lemma ulp_pos: "0 < (2::rat) powi e"
  by simp

lemma ulp_52: "(2::rat) powi e = 2 ^ 52 * 2 powi (e - 52)"
proof -
  have "(2::rat) powi (52 + (e - 52)) = 2 powi 52 * 2 powi (e - 52)"
    by (rule power_int_add) simp
  then show ?thesis by simp
qed

lemma ulp_53: "(2::rat) powi (e + 1) = 2 ^ 53 * 2 powi (e - 52)"
proof -
  have "(2::rat) powi (53 + (e - 52)) = 2 powi 53 * 2 powi (e - 52)"
    by (rule power_int_add) simp
  moreover have "53 + (e - 52) = e + 1" by simp
  ultimately show ?thesis by simp
qed

lemma fl_pos_binade:
  assumes "0 < x"
  shows "2 powi (ilog2 x) \<le> fl_pos x" and "fl_pos x \<le> 2 powi (ilog2 x + 1)"
proof -
  define u :: rat where "u = 2 powi (ilog2 x - 52)"
  have u: "0 < u" by (simp add: u_def ulp_pos)
  have fx: "fl_pos x = of_int (round_half_even (x / u)) * u"
    using assms by (simp add: fl_pos_def u_def Let_def)
  have "2 ^ 52 * u \<le> x" using ilog2_lower [OF assms] ulp_52 [of "ilog2 x"] by (simp add: u_def)
  then have "of_int (2 ^ 52) \<le> x / u" using u by (simp add: field_simps)
  then have "round_half_even (of_int (2 ^ 52)) \<le> round_half_even (x / u)" by (rule rhe_mono)
  then have "(2::int) ^ 52 \<le> round_half_even (x / u)" by (simp only: rhe_of_int)
  then have "(of_int (2 ^ 52) :: rat) \<le> of_int (round_half_even (x / u))"
    by (simp only: of_int_le_iff)
  then have "2 ^ 52 * u \<le> of_int (round_half_even (x / u)) * u" using u by simp
  then show "2 powi (ilog2 x) \<le> fl_pos x" using ulp_52 [of "ilog2 x"] by (simp add: fx u_def)
  have "x \<le> 2 ^ 53 * u" using ilog2_upper [OF assms] ulp_53 [of "ilog2 x"] by (simp add: u_def)
  then have "x / u \<le> of_int (2 ^ 53)" using u by (simp add: field_simps)
  then have "round_half_even (x / u) \<le> round_half_even (of_int (2 ^ 53))" by (rule rhe_mono)
  then have "round_half_even (x / u) \<le> 2 ^ 53" by (simp only: rhe_of_int)
  then have "(of_int (round_half_even (x / u)) :: rat) \<le> of_int (2 ^ 53)"
    by (simp only: of_int_le_iff)
  then have "of_int (round_half_even (x / u)) * u \<le> 2 ^ 53 * u" using u by simp
  then show "fl_pos x \<le> 2 powi (ilog2 x + 1)" using ulp_53 [of "ilog2 x"] by (simp add: fx u_def)
qed

lemma fl_pos_nonneg: "0 \<le> x \<Longrightarrow> 0 \<le> fl_pos x"
proof (cases "x = 0")
  case True
  then show ?thesis by (simp add: fl_pos_def)
next
  case False
  assume "0 \<le> x"
  with False have "0 < x" by simp
  from fl_pos_binade(1) [OF this] ulp_pos [of "ilog2 x"] show ?thesis by linarith
qed

lemma ilog2_mono:
  assumes "0 < x" and "x \<le> y"
  shows "ilog2 x \<le> ilog2 y"
proof -
  have "0 < y" using assms by simp
  have "(2::rat) powi (ilog2 x) < 2 powi (ilog2 y + 1)"
    using ilog2_lower [OF assms(1)] ilog2_upper [OF \<open>0 < y\<close>] assms(2) by linarith
  moreover have "(2::rat) powi (ilog2 y + 1) \<le> 2 powi (ilog2 x)" if "ilog2 y + 1 \<le> ilog2 x"
    using that by (simp add: power_int_increasing)
  ultimately show ?thesis by fastforce
qed

lemma fl_pos_mono:
  assumes "0 \<le> x" and "x \<le> y"
  shows "fl_pos x \<le> fl_pos y"
proof (cases "x = 0")
  case True
  then show ?thesis using fl_pos_nonneg [of y] assms by (simp add: fl_pos_def)
next
  case False
  then have x: "0 < x" and y: "0 < y" using assms by simp_all
  have le: "ilog2 x \<le> ilog2 y" using x assms(2) by (rule ilog2_mono)
  show ?thesis
  proof (cases "ilog2 x = ilog2 y")
    case True
    define u :: rat where "u = 2 powi (ilog2 x - 52)"
    have u: "0 < u" by (simp add: u_def ulp_pos)
    have "x / u \<le> y / u" using assms(2) u by (simp add: divide_right_mono)
    then have "round_half_even (x / u) \<le> round_half_even (y / u)" by (rule rhe_mono)
    then have "(of_int (round_half_even (x / u)) :: rat) \<le> of_int (round_half_even (y / u))"
      by (simp only: of_int_le_iff)
    then have "of_int (round_half_even (x / u)) * u \<le> of_int (round_half_even (y / u)) * u"
      using u by simp
    then show ?thesis using x y True by (simp add: fl_pos_def u_def Let_def)
  next
    case False
    with le have "ilog2 x + 1 \<le> ilog2 y" by simp
    then have "(2::rat) powi (ilog2 x + 1) \<le> 2 powi (ilog2 y)"
      by (simp add: power_int_increasing)
    with fl_pos_binade(2) [OF x] fl_pos_binade(1) [OF y] show ?thesis by linarith
  qed
qed

lemma fl_mono: "x \<le> y \<Longrightarrow> fl x \<le> fl y"
  unfolding fl_def
  using fl_pos_mono [of x y] fl_pos_mono [of "- y" "- x"] fl_pos_nonneg [of "- x"] fl_pos_nonneg [of y]
  by (auto; linarith)

lemma fl_zero [simp]: "fl 0 = 0"
  by (simp add: fl_def fl_pos_def)

lemma fl_nonneg: "0 \<le> x \<Longrightarrow> 0 \<le> fl x"
  using fl_mono [of 0 x] by simp

lemma fl_between:
  assumes "a \<le> x" and "x \<le> b" and "fl a = a" and "fl b = b"
  shows "a \<le> fl x \<and> fl x \<le> b"
  using fl_mono [OF assms(1)] fl_mono [OF assms(2)] assms(3,4) by simp

lemma py_round_mono: "x \<le> y \<Longrightarrow> py_round x n \<le> py_round y n"
  unfolding py_round_def
  by (intro fl_mono divide_right_mono) (simp_all add: rhe_mono)

lemma fl_consts:
  "fl 1 = 1" "fl 2 = 2" "fl (- 2) = - 2" "fl 4 = 4" "fl 5 = 5" "fl 13 = 13" "fl 18 = 18"
  "fl 20 = 20" "fl 32 = 32" "fl 36 = 36" "fl 50 = 50" "fl 100 = 100" "fl 120 = 120"
  "fl 250 = 250" "fl 300 = 300" "fl (- 122) = - 122" "fl (- 118) = - 118"
  "fl (5 / 10) = 1 / 2" "fl (35 / 10) = 7 / 2" "fl (1 / 2) = 1 / 2" "fl (7 / 2) = 7 / 2" "fl 3 = 3"
  by code_simp+

lemma py_round_consts:
  "py_round 0 2 = 0" "py_round 1 2 = 1" "py_round 5 2 = 5" "py_round 18 2 = 18"
  "py_round (1 / 2) 2 = 1 / 2" "py_round (7 / 2) 2 = 7 / 2"
  by code_simp+

lemma py_round1_consts:
  "py_round 50 1 = 50" "py_round 300 1 = 300" "py_round 20 1 = 20" "py_round 120 1 = 120"
  by code_simp+

lemma uniform_range:
  assumes "unit_draw r" and "a \<le> b" and "fl a = a" and "fl b = b" and "fl (b - a) = b - a"
  shows "a \<le> uniform a b r \<and> uniform a b r \<le> b"
proof -
  have r: "0 \<le> r" "r \<le> 1" using assms(1) by (simp_all add: unit_draw_def)
  define w where "w = b - a"
  have w: "0 \<le> w" "fl w = w" using assms by (simp_all add: w_def)
  have "0 \<le> w * r" "w * r \<le> w" using r w by (simp_all add: mult_left_le)
  then have "0 \<le> fl (w * r) \<and> fl (w * r) \<le> w"
    using fl_between [of 0 "w * r" w] w by simp
  then have "a \<le> a + fl (w * r)" "a + fl (w * r) \<le> b" by (simp_all add: w_def)
  then have "a \<le> fl (a + fl (w * r)) \<and> fl (a + fl (w * r)) \<le> b"
    using fl_between [of a "a + fl (w * r)" b] assms by simp
  then show ?thesis by (simp add: uniform_def fadd_def fmul_def fsub_def w_def assms)
qed


lemma fadd_nonneg: "0 \<le> x \<Longrightarrow> 0 \<le> y \<Longrightarrow> 0 \<le> fadd x y"
  by (simp add: fadd_def fl_nonneg)

lemma whale_rules_nonneg: "0 \<le> whale_rules s t d w"
  unfolding whale_rules_def Let_def
  by (auto intro!: fadd_nonneg fl_nonneg)

lemma jitter_consts: "fl (fl (2 / 10)) = fl (2 / 10)" "fl (fl (2 / 10) - 0) = fl (2 / 10) - 0"
  by code_simp+

lemma sample_ranges:
  assumes "valid_rands rs"
  shows "- 2 \<le> d_lat (sample rs) \<and> d_lat (sample rs) \<le> 2"
    and "- 2 \<le> d_lon (sample rs) \<and> d_lon (sample rs) \<le> 2"
    and "5 \<le> d_temp (sample rs) \<and> d_temp (sample rs) \<le> 18"
    and "50 \<le> d_depth (sample rs) \<and> d_depth (sample rs) \<le> 300"
    and "20 \<le> d_sound (sample rs) \<and> d_sound (sample rs) \<le> 120"
    and "1 / 2 \<le> d_wave (sample rs) \<and> d_wave (sample rs) \<le> 7 / 2"
    and "0 \<le> d_jitter (sample rs) \<and> d_jitter (sample rs) \<le> fl (2 / 10)"
proof -
  have r: "unit_draw (r_lat rs)" "unit_draw (r_lon rs)" "unit_draw (r_temp rs)"
    "unit_draw (r_depth rs)" "unit_draw (r_sound rs)" "unit_draw (r_wave rs)"
    "unit_draw (r_jitter rs)"
    using assms by (simp_all add: valid_rands_def)
  show "- 2 \<le> d_lat (sample rs) \<and> d_lat (sample rs) \<le> 2"
    using uniform_range [OF r(1), of "- 2" 2] by (simp add: sample_def fl_consts)
  show "- 2 \<le> d_lon (sample rs) \<and> d_lon (sample rs) \<le> 2"
    using uniform_range [OF r(2), of "- 2" 2] by (simp add: sample_def fl_consts)
  show "5 \<le> d_temp (sample rs) \<and> d_temp (sample rs) \<le> 18"
    using uniform_range [OF r(3), of 5 18] by (simp add: sample_def fl_consts)
  show "50 \<le> d_depth (sample rs) \<and> d_depth (sample rs) \<le> 300"
    using uniform_range [OF r(4), of 50 300] by (simp add: sample_def fl_consts)
  show "20 \<le> d_sound (sample rs) \<and> d_sound (sample rs) \<le> 120"
    using uniform_range [OF r(5), of 20 120] by (simp add: sample_def fl_consts)
  show "1 / 2 \<le> d_wave (sample rs) \<and> d_wave (sample rs) \<le> 7 / 2"
    using uniform_range [OF r(6), of "1 / 2" "7 / 2"] by (simp add: sample_def fl_consts)
  have "0 \<le> fl (2 / 10)" by (simp add: fl_nonneg)
  then show "0 \<le> d_jitter (sample rs) \<and> d_jitter (sample rs) \<le> fl (2 / 10)"
    using uniform_range [OF r(7), of 0 "fl (2 / 10)"] jitter_consts
    by (simp add: sample_def)
qed

lemma py_round_between:
  assumes "a \<le> x" and "x \<le> b" and "py_round a n = a" and "py_round b n = b"
  shows "a \<le> py_round x n \<and> py_round x n \<le> b"
  using py_round_mono [OF assms(1), of n] py_round_mono [OF assms(2), of n] assms(3,4) by simp

lemma whale_score_bounds:
  assumes "0 \<le> j"
  shows "0 \<le> whale_score s t d w j \<and> whale_score s t d w j \<le> 1"
  using fadd_nonneg [OF whale_rules_nonneg assms, of s t d w] by (simp add: whale_score_def)

lemma whale_prob_bounds:
  assumes "valid_rands rs"
  shows "0 \<le> whale_prob (generate_buoy_reading i t rs) \<and>
         whale_prob (generate_buoy_reading i t rs) \<le> 1"
proof -
  define p where "p = whale_score (d_sound (sample rs)) (d_temp (sample rs))
    (d_depth (sample rs)) (d_wave (sample rs)) (d_jitter (sample rs))"
  have "0 \<le> p \<and> p \<le> 1"
    unfolding p_def using sample_ranges(7) [OF assms] by (intro whale_score_bounds) simp
  then have "0 \<le> py_round p 2 \<and> py_round p 2 \<le> 1"
    using py_round_between [of 0 p 1 2] by (simp add: py_round_consts)
  then show ?thesis by (simp add: generate_buoy_reading_def reading_of_def p_def)
qed

lemma generated_ranges:
  assumes "valid_rands rs"
  shows "32 \<le> lat (generate_buoy_reading i t rs) \<and> lat (generate_buoy_reading i t rs) \<le> 36"
    and "- 122 \<le> lon (generate_buoy_reading i t rs) \<and> lon (generate_buoy_reading i t rs) \<le> - 118"
    and "5 \<le> temp (generate_buoy_reading i t rs) \<and> temp (generate_buoy_reading i t rs) \<le> 18"
    and "50 \<le> depth (generate_buoy_reading i t rs) \<and> depth (generate_buoy_reading i t rs) \<le> 300"
    and "20 \<le> sound (generate_buoy_reading i t rs) \<and> sound (generate_buoy_reading i t rs) \<le> 120"
    and "1 / 2 \<le> wave (generate_buoy_reading i t rs) \<and> wave (generate_buoy_reading i t rs) \<le> 7 / 2"
proof -
  note s = sample_ranges [OF assms]
  show "32 \<le> lat (generate_buoy_reading i t rs) \<and> lat (generate_buoy_reading i t rs) \<le> 36"
    using s(1) fl_between [of 32 "34 + d_lat (sample rs)" 36]
    by (simp add: generate_buoy_reading_def reading_of_def fadd_def fl_consts)
  show "- 122 \<le> lon (generate_buoy_reading i t rs) \<and> lon (generate_buoy_reading i t rs) \<le> - 118"
    using s(2) fl_between [of "- 122" "- 120 + d_lon (sample rs)" "- 118"]
    by (simp add: generate_buoy_reading_def reading_of_def fadd_def fl_consts)
  show "5 \<le> temp (generate_buoy_reading i t rs) \<and> temp (generate_buoy_reading i t rs) \<le> 18"
    using s(3) py_round_between [of "5" "d_temp (sample rs)" "18" 2]
    by (simp add: generate_buoy_reading_def reading_of_def py_round_consts)
  show "50 \<le> depth (generate_buoy_reading i t rs) \<and> depth (generate_buoy_reading i t rs) \<le> 300"
    using s(4) py_round_between [OF _ _ py_round1_consts(1,2), of "d_depth (sample rs)"]
    by (simp add: generate_buoy_reading_def reading_of_def)
  show "20 \<le> sound (generate_buoy_reading i t rs) \<and> sound (generate_buoy_reading i t rs) \<le> 120"
    using s(5) py_round_between [OF _ _ py_round1_consts(3,4), of "d_sound (sample rs)"]
    by (simp add: generate_buoy_reading_def reading_of_def)
  show "1 / 2 \<le> wave (generate_buoy_reading i t rs) \<and> wave (generate_buoy_reading i t rs) \<le> 7 / 2"
    using s(6) py_round_between [of "1 / 2" "d_wave (sample rs)" "7 / 2" 2]
    by (simp add: generate_buoy_reading_def reading_of_def py_round_consts)
qed


lemma fl_pos_error:
  assumes "0 < x"
  shows "\<bar>fl_pos x - x\<bar> \<le> x / 2 ^ 53"
proof -
  define u :: rat where "u = 2 powi (ilog2 x - 52)"
  have u: "0 < u" by (simp add: u_def)
  have fx: "fl_pos x = of_int (round_half_even (x / u)) * u"
    using assms by (simp add: fl_pos_def u_def Let_def)
  have "\<bar>of_int (round_half_even (x / u)) - x / u\<bar> \<le> 1 / 2"
    using rhe_upper [of "x / u"] rhe_lower [of "x / u"] by linarith
  then have "\<bar>of_int (round_half_even (x / u)) - x / u\<bar> * u \<le> 1 / 2 * u"
    using u by (simp only: mult_le_cancel_right_pos)
  moreover have "\<bar>of_int (round_half_even (x / u)) - x / u\<bar> * u
      = \<bar>of_int (round_half_even (x / u)) * u - x\<bar>"
  proof -
    have "\<bar>of_int (round_half_even (x / u)) - x / u\<bar> * u
        = \<bar>(of_int (round_half_even (x / u)) - x / u) * u\<bar>"
      using u by (simp add: abs_mult)
    also have "(of_int (round_half_even (x / u)) - x / u) * u
        = of_int (round_half_even (x / u)) * u - x"
      using u by (simp add: field_simps)
    finally show ?thesis .
  qed
  ultimately have "\<bar>fl_pos x - x\<bar> \<le> u / 2" by (simp add: fx)
  moreover have "2 ^ 52 * u \<le> x"
    using ilog2_lower [OF assms] ulp_52 [of "ilog2 x"] by (simp add: u_def)
  ultimately show ?thesis by (simp add: field_simps)
qed

lemma fl_error: "\<bar>fl x - x\<bar> \<le> \<bar>x\<bar> / 2 ^ 53"
proof -
  consider "x < 0" | "x = 0" | "0 < x" by linarith
  then show ?thesis
  proof cases
    case 1
    then show ?thesis using fl_pos_error [of "- x"] by (simp add: fl_def)
  next
    case 2
    then show ?thesis by simp
  next
    case 3
    then show ?thesis using fl_pos_error [of x] by (simp add: fl_def)
  qed
qed

lemma rhe_unique:
  assumes "\<bar>x - of_int k\<bar> < 1 / 2"
  shows "round_half_even x = k"
proof -
  have "\<bar>(of_int (round_half_even x) :: rat) - of_int k\<bar> < 1"
    using rhe_upper [of x] rhe_lower [of x] assms by linarith
  then have "\<bar>(of_int (round_half_even x - k) :: rat)\<bar> < 1" by simp
  then have "\<bar>round_half_even x - k\<bar> < 1"
    by (metis of_int_abs of_int_less_1_iff)
  then show ?thesis by simp
qed

lemma py_round_idem:
  assumes "\<bar>x\<bar> * 10 ^ n \<le> 2 ^ 50"
  shows "is_rounded n (py_round x n)"
proof -
  define k where "k = round_half_even (x * 10 ^ n)"
  define y where "y = fl (of_int k / 10 ^ n)"
  have p: "(0::rat) < 10 ^ n" by simp
  have "\<bar>of_int k :: rat\<bar> \<le> \<bar>x * 10 ^ n\<bar> + 1 / 2"
    using rhe_upper [of "x * 10 ^ n"] rhe_lower [of "x * 10 ^ n"] unfolding k_def by linarith
  also have "\<bar>x * 10 ^ n\<bar> = \<bar>x\<bar> * 10 ^ n" by (simp add: abs_mult)
  finally have k: "\<bar>of_int k :: rat\<bar> \<le> 2 ^ 50 + 1 / 2" using assms by linarith
  have "\<bar>y - of_int k / 10 ^ n\<bar> \<le> \<bar>of_int k / 10 ^ n\<bar> / 2 ^ 53"
    unfolding y_def by (rule fl_error)
  then have "\<bar>y - of_int k / 10 ^ n\<bar> * 10 ^ n \<le> \<bar>of_int k / 10 ^ n\<bar> / 2 ^ 53 * 10 ^ n"
    using p by (simp only: mult_le_cancel_right_pos)
  moreover have "\<bar>y - of_int k / 10 ^ n\<bar> * 10 ^ n = \<bar>y * 10 ^ n - of_int k\<bar>"
  proof -
    have "\<bar>y - of_int k / 10 ^ n\<bar> * 10 ^ n = \<bar>(y - of_int k / 10 ^ n) * 10 ^ n\<bar>"
      by (simp add: abs_mult)
    also have "(y - of_int k / 10 ^ n) * 10 ^ n = y * 10 ^ n - of_int k"
      by (simp add: field_simps)
    finally show ?thesis .
  qed
  moreover have "\<bar>of_int k / 10 ^ n\<bar> / 2 ^ 53 * 10 ^ n = \<bar>of_int k :: rat\<bar> / 2 ^ 53"
    by simp
  ultimately have "\<bar>y * 10 ^ n - of_int k\<bar> \<le> \<bar>of_int k :: rat\<bar> / 2 ^ 53" by simp
  also have "\<dots> \<le> (2 ^ 50 + 1 / 2) / 2 ^ 53" using k by (simp add: divide_right_mono)
  also have "\<dots> < 1 / 2" by simp
  finally have "round_half_even (y * 10 ^ n) = k" by (rule rhe_unique)
  then have "py_round y n = y" by (simp add: py_round_def y_def)
  moreover have "py_round x n = y" by (simp add: py_round_def y_def k_def)
  ultimately show ?thesis by (simp add: is_rounded_def)
qed

section \<open>The generator and the scorer\<close>

lemma new_rows_nth: "i < n \<Longrightarrow> new_rows e step n ! i = generate_buoy_reading (i + 1) (clock e step i) (rnd e step i)"
  by (simp add: new_rows_def)

text \<open>
  Claim C1. Every reading that an iteration appends to the telemetry log (the rows of
  \<open>new_rows\<close>) stores a whale probability between 0 and 1: the score is
  \<open>min(1.0, rule_sum + jitter)\<close> with a rule sum and a jitter that are not negative, and
  rounding to two decimals keeps the bounds.
\<close>

theorem whale_prob_clamped:
  assumes "i < n" and "valid_rands (rnd e step i)"
  shows "0 \<le> whale_rules (d_sound (sample (rnd e step i))) (d_temp (sample (rnd e step i)))
           (d_depth (sample (rnd e step i))) (d_wave (sample (rnd e step i))) \<and>
    0 \<le> d_jitter (sample (rnd e step i)) \<and> d_jitter (sample (rnd e step i)) \<le> fl (2 / 10) \<and>
    whale_prob (new_rows e step n ! i)
      = py_round (min 1 (fadd
          (whale_rules (d_sound (sample (rnd e step i))) (d_temp (sample (rnd e step i)))
             (d_depth (sample (rnd e step i))) (d_wave (sample (rnd e step i))))
          (d_jitter (sample (rnd e step i))))) 2 \<and>
    0 \<le> whale_prob (new_rows e step n ! i) \<and> whale_prob (new_rows e step n ! i) \<le> 1"
proof -
  have row: "new_rows e step n ! i
      = generate_buoy_reading (i + 1) (clock e step i) (rnd e step i)"
    using assms(1) by (rule new_rows_nth)
  have "whale_prob (generate_buoy_reading (i + 1) (clock e step i) (rnd e step i))
      = py_round (min 1 (fadd
          (whale_rules (d_sound (sample (rnd e step i))) (d_temp (sample (rnd e step i)))
             (d_depth (sample (rnd e step i))) (d_wave (sample (rnd e step i))))
          (d_jitter (sample (rnd e step i))))) 2"
    by (simp add: generate_buoy_reading_def reading_of_def whale_score_def)
  then show ?thesis
    unfolding row
    using whale_prob_bounds [OF assms(2), of "i + 1" "clock e step i"]
      sample_ranges(7) [OF assms(2)] whale_rules_nonneg
    by (intro conjI) simp_all
qed

theorem whale_prob_clamped_witness:
  "(0::nat) < 2 \<and> valid_rands (rnd steady_env 0 0) \<and>
   0 \<le> d_jitter (sample (rnd steady_env 0 0)) \<and>
   d_jitter (sample (rnd steady_env 0 0)) \<le> fl (2 / 10) \<and>
   0 \<le> whale_prob (new_rows steady_env 0 2 ! 0) \<and> whale_prob (new_rows steady_env 0 2 ! 0) \<le> 1"
proof -
  have h1: "(0::nat) < 2" by simp
  have h2: "valid_rands (rnd steady_env 0 0)"
    by (simp add: steady_env_def mid_rands_def valid_rands_def unit_draw_def)
  show ?thesis using whale_prob_clamped [OF h1 h2] h1 h2 by blast
qed

text \<open>
  Claim C6. Every measurement of a generated reading lies in its generation range: latitude
  in [32, 36], longitude in [-122, -118], temperature in [5, 18], depth in [50, 300], sound
  level in [20, 120] and wave height in [0.5, 3.5].
\<close>

theorem generated_fields_in_range:
  assumes "valid_rands rs"
  shows "32 \<le> lat (generate_buoy_reading i t rs) \<and> lat (generate_buoy_reading i t rs) \<le> 36 \<and>
    - 122 \<le> lon (generate_buoy_reading i t rs) \<and> lon (generate_buoy_reading i t rs) \<le> - 118 \<and>
    5 \<le> temp (generate_buoy_reading i t rs) \<and> temp (generate_buoy_reading i t rs) \<le> 18 \<and>
    50 \<le> depth (generate_buoy_reading i t rs) \<and> depth (generate_buoy_reading i t rs) \<le> 300 \<and>
    20 \<le> sound (generate_buoy_reading i t rs) \<and> sound (generate_buoy_reading i t rs) \<le> 120 \<and>
    1 / 2 \<le> wave (generate_buoy_reading i t rs) \<and>
    wave (generate_buoy_reading i t rs) \<le> 7 / 2"
  using generated_ranges [OF assms, of i t] by (intro conjI) simp_all

theorem generated_fields_in_range_witness:
  "valid_rands mid_rands \<and>
   (32 \<le> lat (generate_buoy_reading 1 0 mid_rands) \<and> lat (generate_buoy_reading 1 0 mid_rands) \<le> 36 \<and>
    - 122 \<le> lon (generate_buoy_reading 1 0 mid_rands) \<and> lon (generate_buoy_reading 1 0 mid_rands) \<le> - 118 \<and>
    5 \<le> temp (generate_buoy_reading 1 0 mid_rands) \<and> temp (generate_buoy_reading 1 0 mid_rands) \<le> 18 \<and>
    50 \<le> depth (generate_buoy_reading 1 0 mid_rands) \<and> depth (generate_buoy_reading 1 0 mid_rands) \<le> 300 \<and>
    20 \<le> sound (generate_buoy_reading 1 0 mid_rands) \<and> sound (generate_buoy_reading 1 0 mid_rands) \<le> 120 \<and>
    1 / 2 \<le> wave (generate_buoy_reading 1 0 mid_rands) \<and>
    wave (generate_buoy_reading 1 0 mid_rands) \<le> 7 / 2)"
proof -
  have h: "valid_rands mid_rands"
    by (simp add: mid_rands_def valid_rands_def unit_draw_def)
  show ?thesis by (rule conjI [OF h generated_fields_in_range [OF h]])
qed

text \<open>
  Evaluated, the reading of buoy 1 at time 0 for seven draws of one half: the whale
  probability is the float 0.6.
\<close>

lemma mid_reading:
  "generate_buoy_reading 1 0 mid_rands
     = \<lparr>time = 0, buoy = ''B-1'', lat = 34, lon = - 120, temp = 23 / 2, depth = 175, sound = 70,
        wave = 2, whale_prob = 5404319552844595 / 9007199254740992\<rparr>"
  by code_simp

lemma full_rule_sum: "whale_rules 90 10 100 1 = 1 - 1 / 2 ^ 53"
  by code_simp

lemma full_rule_consts:
  "fl (1 - 1 / 2 ^ 53) = 1 - 1 / 2 ^ 53" "py_round (1 - 1 / 2 ^ 53) 2 = 1"
  by code_simp+

text \<open>
  Claim C4, as stated, fails in binary64: for the draws sound 90, temperature 10, depth 100
  and wave height 1 the rule sum \<open>0 + 0.4 + 0.3 + 0.2 + 0.1\<close> is not 1.0, and with the
  jitter 0 (which \<open>random.uniform(0, 0.2)\<close> returns when \<open>random()\<close> returns 0) the
  value \<open>min(1.0, rule_sum + jitter)\<close> is not 1.0 either.
\<close>

theorem full_rules_counterexample:
  "whale_rules 90 10 100 1 \<noteq> 1 \<and> uniform 0 (fl (2 / 10)) 0 = 0 \<and> whale_score 90 10 100 1 0 \<noteq> 1"
  by code_simp

text \<open>
  Claim C4, amended. For the draws sound 90, temperature 10, depth 100 and wave height 1 all
  four rules fire, the rule sum is \<open>0 + 0.4 + 0.3 + 0.2 + 0.1\<close> in binary64, which is
  \<open>1 - 2 ^ - 53\<close>, and the stored whale probability (after rounding to two decimals) is
  exactly 1 for every jitter that is not negative.
\<close>

theorem full_rules_stored_one:
  assumes "d_sound d = 90" and "d_temp d = 10" and "d_depth d = 100" and "d_wave d = 1"
    and "0 \<le> d_jitter d"
  shows "whale_rules (d_sound d) (d_temp d) (d_depth d) (d_wave d)
           = fadd (fadd (fadd (fadd 0 (fl (4 / 10))) (fl (3 / 10))) (fl (2 / 10))) (fl (1 / 10)) \<and>
         whale_rules (d_sound d) (d_temp d) (d_depth d) (d_wave d) = 1 - 1 / 2 ^ 53 \<and>
         whale_prob (reading_of i t d) = 1"
proof -
  define s :: rat where "s = 1 - 1 / 2 ^ 53"
  define p where "p = whale_score 90 10 100 1 (d_jitter d)"
  have s: "fl s = s" "py_round s 2 = 1" "whale_rules 90 10 100 1 = s"
    unfolding s_def by (rule full_rule_consts full_rule_sum)+
  have "fl s \<le> fl (s + d_jitter d)" using assms(5) by (intro fl_mono) simp
  then have "s \<le> fl (s + d_jitter d)" by (simp only: s(1))
  moreover have "s \<le> 1" by (simp add: s_def)
  ultimately have "s \<le> p \<and> p \<le> 1"
    by (simp add: p_def whale_score_def s(3) fadd_def)
  then have "py_round s 2 \<le> py_round p 2 \<and> py_round p 2 \<le> py_round 1 2"
    by (simp add: py_round_mono)
  then have "py_round p 2 = 1" by (simp add: s(2) py_round_consts)
  moreover have "whale_rules 90 10 100 1
      = fadd (fadd (fadd (fadd 0 (fl (4 / 10))) (fl (3 / 10))) (fl (2 / 10))) (fl (1 / 10))"
    by (simp add: whale_rules_def)
  ultimately show ?thesis
    using full_rule_sum by (simp add: reading_of_def assms(1-4) p_def)
qed

theorem full_rules_stored_one_witness:
  "d_sound (full_draws (1 / 10)) = 90 \<and> d_temp (full_draws (1 / 10)) = 10 \<and>
   d_depth (full_draws (1 / 10)) = 100 \<and> d_wave (full_draws (1 / 10)) = 1 \<and>
   0 \<le> d_jitter (full_draws (1 / 10)) \<and>
   whale_prob (reading_of 1 0 (full_draws (1 / 10))) = 1"
proof -
  have h: "d_sound (full_draws (1 / 10)) = 90" "d_temp (full_draws (1 / 10)) = 10"
    "d_depth (full_draws (1 / 10)) = 100" "d_wave (full_draws (1 / 10)) = 1"
    "0 \<le> d_jitter (full_draws (1 / 10))"
    by (simp_all add: full_draws_def)
  show ?thesis using full_rules_stored_one [OF h, of 1 0] h by simp
qed

text \<open>
  Claim C5, as stated, fails: the latitude of a generated reading is stored as computed and
  need not be a two-decimal number, and the sound level is rounded to one decimal, not two.
\<close>

theorem rounding_counterexample:
  "valid_rands fine_rands \<and>
   \<not> is_rounded 2 (lat (generate_buoy_reading 1 0 fine_rands)) \<and>
   sound (generate_buoy_reading 1 0 fine_rands) \<noteq> py_round (d_sound (sample fine_rands)) 2"
  by code_simp

text \<open>
  Claim C5, amended. Temperature, wave height and whale probability are rounded to two
  decimals, depth and sound level to one decimal, and each of them is a fixed point of that
  rounding; latitude and longitude are stored unrounded, as the sum of the base and the
  offset.
\<close>

theorem stored_fields_rounding:
  assumes "valid_rands rs"
  shows "lat (generate_buoy_reading i t rs) = fadd 34 (d_lat (sample rs)) \<and>
    lon (generate_buoy_reading i t rs) = fadd (- 120) (d_lon (sample rs)) \<and>
    temp (generate_buoy_reading i t rs) = py_round (d_temp (sample rs)) 2 \<and>
    is_rounded 2 (temp (generate_buoy_reading i t rs)) \<and>
    depth (generate_buoy_reading i t rs) = py_round (d_depth (sample rs)) 1 \<and>
    is_rounded 1 (depth (generate_buoy_reading i t rs)) \<and>
    sound (generate_buoy_reading i t rs) = py_round (d_sound (sample rs)) 1 \<and>
    is_rounded 1 (sound (generate_buoy_reading i t rs)) \<and>
    wave (generate_buoy_reading i t rs) = py_round (d_wave (sample rs)) 2 \<and>
    is_rounded 2 (wave (generate_buoy_reading i t rs)) \<and>
    is_rounded 2 (whale_prob (generate_buoy_reading i t rs))"
proof -
  note s = sample_ranges [OF assms]
  have "\<bar>d_temp (sample rs)\<bar> * 10 ^ 2 \<le> 2 ^ 50" using s(3) by simp
  then have 1: "is_rounded 2 (py_round (d_temp (sample rs)) 2)" by (rule py_round_idem)
  have "\<bar>d_depth (sample rs)\<bar> * 10 ^ 1 \<le> 2 ^ 50" using s(4) by simp
  then have 2: "is_rounded 1 (py_round (d_depth (sample rs)) 1)" by (rule py_round_idem)
  have "\<bar>d_sound (sample rs)\<bar> * 10 ^ 1 \<le> 2 ^ 50" using s(5) by simp
  then have 3: "is_rounded 1 (py_round (d_sound (sample rs)) 1)" by (rule py_round_idem)
  have "\<bar>d_wave (sample rs)\<bar> * 10 ^ 2 \<le> 2 ^ 50" using s(6) by simp
  then have 4: "is_rounded 2 (py_round (d_wave (sample rs)) 2)" by (rule py_round_idem)
  define p where "p = whale_score (d_sound (sample rs)) (d_temp (sample rs))
    (d_depth (sample rs)) (d_wave (sample rs)) (d_jitter (sample rs))"
  have "0 \<le> p \<and> p \<le> 1"
    unfolding p_def using s(7) by (intro whale_score_bounds) simp
  then have "\<bar>p\<bar> * 10 ^ 2 \<le> 2 ^ 50" by simp
  then have 5: "is_rounded 2 (py_round p 2)" by (rule py_round_idem)
  show ?thesis
    using 1 2 3 4 5 by (simp add: generate_buoy_reading_def reading_of_def p_def)
qed

theorem stored_fields_rounding_witness:
  "valid_rands fine_rands \<and>
   (lat (generate_buoy_reading 1 0 fine_rands) = fadd 34 (d_lat (sample fine_rands)) \<and>
    lon (generate_buoy_reading 1 0 fine_rands) = fadd (- 120) (d_lon (sample fine_rands)) \<and>
    temp (generate_buoy_reading 1 0 fine_rands) = py_round (d_temp (sample fine_rands)) 2 \<and>
    is_rounded 2 (temp (generate_buoy_reading 1 0 fine_rands)) \<and>
    depth (generate_buoy_reading 1 0 fine_rands) = py_round (d_depth (sample fine_rands)) 1 \<and>
    is_rounded 1 (depth (generate_buoy_reading 1 0 fine_rands)) \<and>
    sound (generate_buoy_reading 1 0 fine_rands) = py_round (d_sound (sample fine_rands)) 1 \<and>
    is_rounded 1 (sound (generate_buoy_reading 1 0 fine_rands)) \<and>
    wave (generate_buoy_reading 1 0 fine_rands) = py_round (d_wave (sample fine_rands)) 2 \<and>
    is_rounded 2 (wave (generate_buoy_reading 1 0 fine_rands)) \<and>
    is_rounded 2 (whale_prob (generate_buoy_reading 1 0 fine_rands)))"
proof -
  have h: "valid_rands fine_rands"
    by (simp add: fine_rands_def valid_rands_def unit_draw_def)
  show ?thesis by (rule conjI [OF h stored_fields_rounding [OF h]])
qed

section \<open>Properties of the dashboard and of the live loop\<close>

lemma tail1_subset: "set (groupby_buoy_tail1 rows) \<subseteq> set rows"
  by (induction rows) auto

lemma tail1_buoys: "buoy ` set (groupby_buoy_tail1 rows) = buoy ` set rows"
  by (induction rows) auto

lemma tail1_distinct: "distinct (map buoy (groupby_buoy_tail1 rows))"
proof (induction rows)
  case Nil
  then show ?case by simp
next
  case (Cons r rows)
  have "buoy r \<notin> buoy ` set (groupby_buoy_tail1 rows)" if "buoy r \<notin> buoy ` set rows"
    using that by (simp add: tail1_buoys)
  with Cons show ?case by auto
qed

lemma tail1_latest:
  assumes "sorted (map time rows)" and "r \<in> set (groupby_buoy_tail1 rows)"
    and "r' \<in> set rows" and "buoy r' = buoy r"
  shows "time r' \<le> time r"
  using assms
proof (induction rows)
  case Nil
  then show ?case by simp
next
  case (Cons a rows)
  have sorted: "sorted (map time rows)" and least: "\<forall>x\<in>set rows. time a \<le> time x"
    using Cons.prems(1) by simp_all
  show ?case
  proof (cases "buoy a \<in> set (map buoy rows)")
    case True
    then have r: "r \<in> set (groupby_buoy_tail1 rows)" using Cons.prems(2) by simp
    then have "r \<in> set rows" using tail1_subset by blast
    then show ?thesis
      using Cons.IH [OF sorted r _ Cons.prems(4)] Cons.prems(3) least by auto
  next
    case False
    then have "r = a \<or> r \<in> set (groupby_buoy_tail1 rows)" using Cons.prems(2) by simp
    then show ?thesis
    proof
      assume "r = a"
      then have "r' = a" using False Cons.prems(3,4) by (metis image_eqI list.set_map set_ConsD)
      then show ?thesis using \<open>r = a\<close> by simp
    next
      assume r: "r \<in> set (groupby_buoy_tail1 rows)"
      then have "r \<in> set rows" using tail1_subset by blast
      then show ?thesis
        using Cons.IH [OF sorted r _ Cons.prems(4)] Cons.prems(3) least by auto
    qed
  qed
qed

lemma tail1_last: "rows \<noteq> [] \<Longrightarrow> last (groupby_buoy_tail1 rows) = last rows"
proof (induction rows)
  case Nil
  then show ?case by simp
next
  case (Cons a rows)
  show ?case
  proof (cases "rows = []")
    case True
    then show ?thesis by simp
  next
    case False
    then have "groupby_buoy_tail1 rows \<noteq> []"
      using tail1_buoys [of rows] by (cases "groupby_buoy_tail1 rows") auto
    then show ?thesis using Cons False by simp
  qed
qed

lemma tail1_nonempty: "rows \<noteq> [] \<Longrightarrow> groupby_buoy_tail1 rows \<noteq> []"
  using tail1_buoys [of rows] by (cases "groupby_buoy_tail1 rows") auto

lemma latest_nonempty: "df \<noteq> [] \<Longrightarrow> latest_per_buoy df \<noteq> []"
  unfolding latest_per_buoy_def sort_values_time_def
  by (rule tail1_nonempty) (metis length_0_conv length_sort)

lemma insort_before_last:
  "f y < f a \<Longrightarrow> insort_key f y (zs @ [a]) = insort_key f y zs @ [a]"
  by (induction zs) auto

lemma sort_key_snoc:
  "\<forall>x\<in>set ys. f x < f a \<Longrightarrow> sort_key f (ys @ [a]) = sort_key f ys @ [a]"
  by (induction ys) (auto simp: insort_before_last)

lemma latest_last:
  assumes "\<forall>x\<in>set rows. time x < time a"
  shows "last (latest_per_buoy (rows @ [a])) = a"
  using assms by (simp add: latest_per_buoy_def sort_values_time_def sort_key_snoc tail1_last)

lemma render_ok:
  assumes "df \<noteq> []"
  shows "\<exists>fr. render step df = Inr fr \<and> step_no fr = step \<and> total_signals fr = length df \<and>
    latest_view fr = latest_per_buoy df \<and>
    health fr = health_score (anomaly_flags (latest_per_buoy df)) \<and>
    cloud_msg fr = cloud_msg_of (last (latest_per_buoy df)) \<and>
    topic fr = ''ocean/buoys/'' @ buoy (last (latest_per_buoy df)) @ ''/telemetry'' \<and>
    csv_rows fr = df"
proof -
  have "rev (latest_per_buoy df) \<noteq> []" using latest_nonempty [OF assms] by simp
  then obtain x xs where x: "rev (latest_per_buoy df) = x # xs" by (cases "rev (latest_per_buoy df)") auto
  then have "last (latest_per_buoy df) = x" by (metis last_rev list.sel(1) rev_rev_ident hd_rev)
  then show ?thesis using assms x by (simp add: render_def Let_def)
qed


lemma new_rows_length [simp]: "length (new_rows e step n) = n"
  by (simp add: new_rows_def)

lemma new_rows_nonempty: "1 \<le> n \<Longrightarrow> rows @ new_rows e step n \<noteq> []"
  by (metis new_rows_length append_is_Nil_conv list.size(3) not_one_le_zero)

lemma live_loop_char:
  assumes "1 \<le> n"
  shows "raised (live_loop e n steps rows True shown) = None \<and>
    warned (live_loop e n steps rows True shown) = False \<and>
    map Inr (frames (live_loop e n steps rows True shown))
      = map Inr shown @
        map (\<lambda>i. render (steps ! i) (log_after e n rows (take (Suc i) steps)))
          [0..<ticks_done e steps] \<and>
    final (live_loop e n steps rows True shown)
      = \<lparr>buoy_data = Some (log_after e n rows (take (ticks_done e steps) steps)),
         running = Some (length (takeWhile (\<lambda>s. flag_write e s \<noteq> Some False) steps)
           = length steps)\<rparr>"
proof (induction steps arbitrary: rows shown)
  case Nil
  then show ?case by simp
next
  case (Cons step steps)
  define rows' where "rows' = rows @ new_rows e step n"
  have "rows' \<noteq> []" unfolding rows'_def using assms by (rule new_rows_nonempty)
  then obtain fr where fr: "render step rows' = Inr fr" using render_ok by blast
  show ?case
  proof (cases "flag_write e step = Some False")
    case True
    then show ?thesis using fr by (simp add: rows'_def Let_def)
  next
    case False
    then have flag: "(case flag_write e step of None \<Rightarrow> True | Some b \<Rightarrow> b) = True"
      by (cases "flag_write e step") auto
    have loop: "live_loop e n (step # steps) rows True shown
        = live_loop e n steps rows' True (shown @ [fr])"
      using fr flag by (simp add: rows'_def Let_def)
    have ticks: "ticks_done e (step # steps) = Suc (ticks_done e steps)"
      using False by simp
    show ?thesis
      unfolding loop ticks
      using Cons.IH [of rows' "shown @ [fr]"] fr False
      by (simp add: map_upt_Suc rows'_def del: upt_Suc)
  qed
qed


lemma buttons_log: "buoy_data (press_buttons ui st) = buoy_data st"
  by (simp add: press_buttons_def Let_def)

lemma init_log: "buoy_data (session_init st) = Some (log_of st)"
  by (simp add: session_init_def log_of_def split: option.splits)

lemma init_log_of: "log_of (session_init st) = log_of st"
  by (simp add: log_of_def init_log)

lemma buttons_running: "\<exists>b. running (press_buttons ui (session_init st)) = Some b"
  by (auto simp: press_buttons_def session_init_def Let_def split: option.splits)

lemma run_entered:
  assumes "running (press_buttons ui (session_init st0)) = Some True"
  shows "run_iot_buoy e ui st0 = live_loop e (num_buoys ui) [0..<50] (log_of st0) True []"
  using assms by (simp add: run_iot_buoy_def Let_def buttons_log init_log)

lemma run_skipped:
  assumes "running (press_buttons ui (session_init st0)) \<noteq> Some True"
  shows "run_iot_buoy e ui st0
    = \<lparr>final = press_buttons ui (session_init st0), frames = [], raised = None, warned = True\<rparr>"
proof -
  obtain b where "running (press_buttons ui (session_init st0)) = Some b"
    using buttons_running by blast
  with assms have "running (press_buttons ui (session_init st0)) = Some False" by simp
  then show ?thesis by (simp add: run_iot_buoy_def Let_def buttons_log init_log)
qed

lemma ticks_done_le: "ticks_done e steps \<le> length steps"
  by simp

lemma run_loop_char:
  assumes "1 \<le> num_buoys ui" and "running (press_buttons ui (session_init st0)) = Some True"
  shows "raised (run_iot_buoy e ui st0) = None"
    and "warned (run_iot_buoy e ui st0) = False"
    and "map Inr (frames (run_iot_buoy e ui st0))
      = map (\<lambda>i. render i (log_after e (num_buoys ui) (log_of st0) [0..<Suc i]))
          [0..<ticks_done e [0..<50]]"
    and "final (run_iot_buoy e ui st0)
      = \<lparr>buoy_data = Some (log_after e (num_buoys ui) (log_of st0) [0..<ticks_done e [0..<50]]),
         running = Some (length (takeWhile (\<lambda>s. flag_write e s \<noteq> Some False) [0..<50]) = 50)\<rparr>"
proof -
  note c = live_loop_char [OF assms(1), where e = e and steps = "[0..<50]"
      and rows = "log_of st0" and shown = "[]"]
  show "raised (run_iot_buoy e ui st0) = None" "warned (run_iot_buoy e ui st0) = False"
    using c by (simp_all add: run_entered [OF assms(2)])
  have le: "ticks_done e [0..<50] \<le> 50" using ticks_done_le [where e = e and steps = "[0..<50]"] by simp
  have "map (\<lambda>i. render ([0..<50] ! i) (log_after e (num_buoys ui) (log_of st0) (take (Suc i) [0..<50])))
          [0..<ticks_done e [0..<50]]
      = map (\<lambda>i. render i (log_after e (num_buoys ui) (log_of st0) [0..<Suc i]))
          [0..<ticks_done e [0..<50]]"
  proof (rule map_cong [OF refl])
    fix i assume "i \<in> set [0..<ticks_done e [0..<50]]"
    then have "i < ticks_done e [0..<50]" by (simp only: set_upt atLeastLessThan_iff)
    then have i: "i < 50" using le by (rule less_le_trans)
    then have "[0..<50] ! i = i" and "take (Suc i) [0..<50] = [0..<Suc i]"
      by (simp_all add: take_upt del: upt_Suc)
    then show "render ([0..<50] ! i) (log_after e (num_buoys ui) (log_of st0) (take (Suc i) [0..<50]))
      = render i (log_after e (num_buoys ui) (log_of st0) [0..<Suc i])"
      by (simp only:)
  qed
  then show "map Inr (frames (run_iot_buoy e ui st0))
      = map (\<lambda>i. render i (log_after e (num_buoys ui) (log_of st0) [0..<Suc i]))
          [0..<ticks_done e [0..<50]]"
    using c by (simp add: run_entered [OF assms(2)])
  have "take (ticks_done e [0..<50]) [0..<50] = [0..<ticks_done e [0..<50]]"
    using le by (simp add: take_upt del: upt_Suc)
  then show "final (run_iot_buoy e ui st0)
      = \<lparr>buoy_data = Some (log_after e (num_buoys ui) (log_of st0) [0..<ticks_done e [0..<50]]),
         running = Some (length (takeWhile (\<lambda>s. flag_write e s \<noteq> Some False) [0..<50]) = 50)\<rparr>"
    using c by (simp add: run_entered [OF assms(2)])
qed

lemma run_frames:
  assumes "1 \<le> num_buoys ui"
  shows "raised (run_iot_buoy e ui st0) = None"
    and "length (frames (run_iot_buoy e ui st0)) \<le> 50"
    and "log_of (final (run_iot_buoy e ui st0))
      = log_after e (num_buoys ui) (log_of st0) [0..<length (frames (run_iot_buoy e ui st0))]"
    and "i < length (frames (run_iot_buoy e ui st0)) \<Longrightarrow>
      render i (log_after e (num_buoys ui) (log_of st0) [0..<Suc i])
        = Inr (frames (run_iot_buoy e ui st0) ! i)"
proof -
  let ?res = "run_iot_buoy e ui st0"
  have "raised ?res = None \<and> length (frames ?res) \<le> 50 \<and>
    log_of (final ?res) = log_after e (num_buoys ui) (log_of st0) [0..<length (frames ?res)] \<and>
    (\<forall>i<length (frames ?res).
       render i (log_after e (num_buoys ui) (log_of st0) [0..<Suc i]) = Inr (frames ?res ! i))"
  proof (cases "running (press_buttons ui (session_init st0)) = Some True")
    case True
    note c = run_loop_char [OF assms True, where e = e]
    have len: "length (frames ?res) = ticks_done e [0..<50]"
      using arg_cong [OF c(3), of length] by simp
    have nth: "render i (log_after e (num_buoys ui) (log_of st0) [0..<Suc i]) = Inr (frames ?res ! i)"
      if "i < length (frames ?res)" for i
    proof -
      have "map Inr (frames ?res) ! i
        = map (\<lambda>i. render i (log_after e (num_buoys ui) (log_of st0) [0..<Suc i]))
            [0..<ticks_done e [0..<50]] ! i"
        by (simp only: c(3))
      then show ?thesis using that len by (simp del: upt_Suc)
    qed
    have "ticks_done e [0..<50] \<le> 50" using ticks_done_le [where e = e and steps = "[0..<50]"] by simp
    then show ?thesis using c(1,4) len nth by (simp add: log_of_def del: upt_Suc)
  next
    case False
    then show ?thesis
      by (simp add: run_skipped log_of_def buttons_log init_log)
  qed
  then show "raised ?res = None" "length (frames ?res) \<le> 50"
    "log_of (final ?res) = log_after e (num_buoys ui) (log_of st0) [0..<length (frames ?res)]"
    "i < length (frames ?res) \<Longrightarrow>
      render i (log_after e (num_buoys ui) (log_of st0) [0..<Suc i]) = Inr (frames ?res ! i)"
    by simp_all
qed

lemma new_rows_total: "length (concat (map (\<lambda>s. new_rows e s n) [0..<k])) = k * n"
  by (induction k) simp_all

lemma log_after_length:
  "length (log_after e n rows [0..<k]) = length rows + k * n"
  by (simp add: new_rows_total del: upt_Suc)

lemma log_after_prefix:
  assumes "k \<le> m"
  shows "log_after e n rows [0..<k] = take (length rows + k * n) (log_after e n rows [0..<m])"
proof -
  have "[0..<m] = [0..<k] @ [k..<m]" using assms by (metis le_add_diff_inverse upt_add_eq_append zero_le)
  then have "log_after e n rows [0..<m]
      = log_after e n rows [0..<k] @ concat (map (\<lambda>s. new_rows e s n) [k..<m])"
    by simp
  then show ?thesis by (simp add: new_rows_total del: upt_Suc)
qed

section \<open>The dashboard claims\<close>

text \<open>
  Claim C2. The health metric of an iteration is computed over the latest-per-buoy view
  only: the view has one row per buoy of the log, each the row of greatest time of its
  buoy, and with \<open>N\<close> rows in the view of which \<open>K\<close> are anomalous the metric is
  \<open>100 - (K / N) * 100\<close>, evaluated in binary64 as the program does.
\<close>

theorem health_over_latest_view:
  assumes "df \<noteq> []"
  shows "\<exists>fr. render step df = Inr fr \<and> latest_view fr = latest_per_buoy df \<and>
     distinct (map buoy (latest_view fr)) \<and>
     set (map buoy (latest_view fr)) = set (map buoy df) \<and>
     (\<forall>r\<in>set (latest_view fr). r \<in> set df \<and>
        (\<forall>r'\<in>set df. buoy r' = buoy r \<longrightarrow> time r' \<le> time r)) \<and>
     health fr = Some (fsub 100 (fmul
       (fdiv (of_nat (length (filter anomalous (latest_view fr))))
             (of_nat (length (latest_view fr)))) 100))"
proof -
  define view where "view = latest_per_buoy df"
  obtain fr where fr: "render step df = Inr fr" "latest_view fr = view"
    "health fr = health_score (anomaly_flags view)"
    using render_ok [OF assms, of step] unfolding view_def by blast
  have sorted: "sorted (map time (sort_key time df))" by (rule sorted_sort_key)
  have sub: "set view \<subseteq> set df"
    using tail1_subset [of "sort_key time df"]
    by (simp add: view_def latest_per_buoy_def sort_values_time_def)
  have buoys: "set (map buoy view) = set (map buoy df)"
    using tail1_buoys [of "sort_key time df"]
    by (simp add: view_def latest_per_buoy_def sort_values_time_def)
  have dist: "distinct (map buoy view)"
    by (simp add: view_def latest_per_buoy_def tail1_distinct)
  have latest: "time r' \<le> time r" if "r \<in> set view" "r' \<in> set df" "buoy r' = buoy r" for r r'
    using tail1_latest [OF sorted, of r r'] that
    by (simp add: view_def latest_per_buoy_def sort_values_time_def)
  have "view \<noteq> []" unfolding view_def using assms by (rule latest_nonempty)
  moreover have "length (filter (\<lambda>b. b) (map anomalous view)) = length (filter anomalous view)"
    by (simp add: filter_map o_def)
  ultimately have h: "health_score (anomaly_flags view) = Some (fsub 100 (fmul
       (fdiv (of_nat (length (filter anomalous view))) (of_nat (length view))) 100))"
    by (simp add: health_score_def mean_flags_def anomaly_flags_def)
  have "render step df = Inr fr \<and> latest_view fr = latest_per_buoy df \<and>
     distinct (map buoy (latest_view fr)) \<and>
     set (map buoy (latest_view fr)) = set (map buoy df) \<and>
     (\<forall>r\<in>set (latest_view fr). r \<in> set df \<and>
        (\<forall>r'\<in>set df. buoy r' = buoy r \<longrightarrow> time r' \<le> time r)) \<and>
     health fr = Some (fsub 100 (fmul
       (fdiv (of_nat (length (filter anomalous (latest_view fr))))
             (of_nat (length (latest_view fr)))) 100))"
    unfolding fr(2,3) h using fr(1) sub buoys dist latest by (auto simp: view_def)
  note shown = this
  show ?thesis by (rule exI [where x = fr]) (rule shown)
qed

theorem health_over_latest_view_witness:
  "sample_log \<noteq> [] \<and>
   (\<exists>fr. render 0 sample_log = Inr fr \<and> latest_view fr = latest_per_buoy sample_log \<and>
     distinct (map buoy (latest_view fr)) \<and>
     set (map buoy (latest_view fr)) = set (map buoy sample_log) \<and>
     (\<forall>r\<in>set (latest_view fr). r \<in> set sample_log \<and>
        (\<forall>r'\<in>set sample_log. buoy r' = buoy r \<longrightarrow> time r' \<le> time r)) \<and>
     health fr = Some (fsub 100 (fmul
       (fdiv (of_nat (length (filter anomalous (latest_view fr))))
             (of_nat (length (latest_view fr)))) 100)))"
proof -
  have h: "sample_log \<noteq> []" by (simp add: sample_log_def)
  show ?thesis by (rule conjI [OF h health_over_latest_view [OF h]])
qed

text \<open>
  The scenario of one anomalous buoy among three: the health is the float
  66.66666666666667, shown as 66.7.
\<close>

lemma scenario_health:
  "health_score (anomaly_flags (latest_per_buoy sample_log))
     = Some (4691249611844267 / 70368744177664)"
  by code_simp

text \<open>
  Claim C3. The anomaly flag of a row is set exactly when its sound level is above 100, its
  temperature below 6 or its wave height above 3; two rows that agree on these three
  fields get the same flag, whatever views they belong to.
\<close>

theorem anomaly_flag_pure:
  assumes "i < length rows" and "j < length rows'"
    and "sound (rows ! i) = sound (rows' ! j)" and "temp (rows ! i) = temp (rows' ! j)"
    and "wave (rows ! i) = wave (rows' ! j)"
  shows "anomaly_flags rows ! i
      = (100 < sound (rows ! i) \<or> temp (rows ! i) < 6 \<or> 3 < wave (rows ! i)) \<and>
    anomaly_flags rows ! i = anomaly_flags rows' ! j"
  using assms by (simp add: anomaly_flags_def anomalous_def)

theorem anomaly_flag_pure_witness:
  "(1::nat) < length sample_log \<and> (0::nat) < length [calm_row ''B-9'' 7] \<and>
   sound (sample_log ! 1) = sound ([calm_row ''B-9'' 7] ! 0) \<and>
   temp (sample_log ! 1) = temp ([calm_row ''B-9'' 7] ! 0) \<and>
   wave (sample_log ! 1) = wave ([calm_row ''B-9'' 7] ! 0) \<and>
   anomaly_flags sample_log ! 1
      = (100 < sound (sample_log ! 1) \<or> temp (sample_log ! 1) < 6 \<or> 3 < wave (sample_log ! 1)) \<and>
   anomaly_flags sample_log ! 1 = anomaly_flags [calm_row ''B-9'' 7] ! 0"
proof -
  have h: "(1::nat) < length sample_log" "(0::nat) < length [calm_row ''B-9'' 7]"
    "sound (sample_log ! 1) = sound ([calm_row ''B-9'' 7] ! 0)"
    "temp (sample_log ! 1) = temp ([calm_row ''B-9'' 7] ! 0)"
    "wave (sample_log ! 1) = wave ([calm_row ''B-9'' 7] ! 0)"
    by (simp_all add: sample_log_def calm_row_def)
  show ?thesis using anomaly_flag_pure [OF h] h by blast
qed


lemma new_rows_snoc:
  "new_rows e step (Suc m)
     = new_rows e step m @ [generate_buoy_reading (Suc m) (clock e step m) (rnd e step m)]"
  by (simp add: new_rows_def)

lemma generated_time [simp]: "time (generate_buoy_reading i t rs) = t"
  by (simp add: generate_buoy_reading_def reading_of_def)

lemma generated_buoy [simp]: "buoy (generate_buoy_reading i t rs) = ''B-'' @ str_nat i"
  by (simp add: generate_buoy_reading_def reading_of_def)

text \<open>
  The payload of an iteration whose log holds a row of buoy B-2 with a time later than the
  clock of the iteration, as a log kept from an earlier run holds after the wall clock
  was set back.
\<close>

lemma stale_render:
  "map_sum id cloud_msg (render 0 ([calm_row ''B-2'' 500] @ new_rows steady_env 0 3))
     = Inr (cloud_msg_of (calm_row ''B-2'' 500))"
  by code_simp

text \<open>
  Claim C8, as stated, fails: the payload is built from the row of greatest time in the
  log, which need not be the reading generated last. Here the last buoy of the iteration
  is B-3, read at time 3, and the payload is that of the older row of B-2.
\<close>

theorem payload_counterexample:
  "new_rows steady_env 0 3 ! 2 = generate_buoy_reading 3 3 mid_rands \<and>
   map_sum id cloud_msg (render 0 ([calm_row ''B-2'' 500] @ new_rows steady_env 0 3))
     = Inr (cloud_msg_of (calm_row ''B-2'' 500)) \<and>
   device_id (cloud_msg_of (calm_row ''B-2'' 500)) = ''B-2'' \<and>
   device_id (cloud_msg_of (generate_buoy_reading 3 3 mid_rands)) = ''B-3''"
proof -
  have "new_rows steady_env 0 3 ! 2 = generate_buoy_reading 3 3 mid_rands"
    using new_rows_nth [of 2 3 steady_env 0] by (simp add: steady_env_def)
  moreover have "device_id (cloud_msg_of (calm_row ''B-2'' 500)) = ''B-2''"
    by (simp add: cloud_msg_of_def calm_row_def)
  moreover have "device_id (cloud_msg_of (generate_buoy_reading 3 3 mid_rands)) = ''B-3''"
    by (simp add: cloud_msg_of_def str_nat.simps digit_char_def)
  ultimately show ?thesis using stale_render by (intro conjI)
qed

text \<open>
  Claim C8, amended. When the time of the reading generated last in an iteration, the one
  of the last buoy \<open>B-n\<close>, is later than every time already in the log and than the times
  of the other readings of the iteration, the one payload of the iteration is built from
  that reading, and its alert field is set exactly when that reading's whale probability
  is above 0.7.
\<close>

theorem payload_from_last_buoy:
  assumes "1 \<le> n" and "\<forall>r\<in>set rows. time r < clock e step (n - 1)"
    and "\<forall>i<n - 1. clock e step i < clock e step (n - 1)"
  shows "\<exists>fr. render step (rows @ new_rows e step n) = Inr fr \<and>
    cloud_msg fr
      = cloud_msg_of (generate_buoy_reading n (clock e step (n - 1)) (rnd e step (n - 1))) \<and>
    device_id (cloud_msg fr) = ''B-'' @ str_nat n \<and>
    ai_alert (cloud_msg fr)
      = (fl (7 / 10)
          < whale_prob (generate_buoy_reading n (clock e step (n - 1)) (rnd e step (n - 1)))) \<and>
    topic fr = ''ocean/buoys/'' @ (''B-'' @ str_nat n) @ ''/telemetry''"
proof -
  obtain m where m: "n = Suc m" using assms(1) by (cases n) auto
  define a where "a = generate_buoy_reading n (clock e step (n - 1)) (rnd e step (n - 1))"
  define before where "before = rows @ new_rows e step m"
  have df: "rows @ new_rows e step n = before @ [a]"
    by (simp add: m new_rows_snoc a_def before_def)
  have ta: "time a = clock e step m" by (simp add: a_def m)
  have ba: "buoy a = ''B-'' @ str_nat n" by (simp add: a_def)
  have early: "clock e step i < clock e step m" if "i < m" for i
    using assms(3) that by (simp add: m)
  have old: "time r < clock e step m" if "r \<in> set rows" for r
    using assms(2) that by (simp add: m)
  have "time x < clock e step m" if "x \<in> set before" for x
  proof -
    from that consider "x \<in> set rows" | "x \<in> set (new_rows e step m)"
      by (auto simp: before_def)
    then show ?thesis
    proof cases
      case 1
      then show ?thesis by (rule old)
    next
      case 2
      then obtain i where "i < m" "x = generate_buoy_reading (i + 1) (clock e step i) (rnd e step i)"
        by (auto simp: new_rows_def)
      then show ?thesis using early by simp
    qed
  qed
  then have "\<forall>x\<in>set before. time x < time a" by (simp add: ta)
  then have last: "last (latest_per_buoy (before @ [a])) = a" by (rule latest_last)
  have "before @ [a] \<noteq> []" by simp
  from render_ok [OF this, of step] obtain fr where
    fr: "render step (before @ [a]) = Inr fr" "cloud_msg fr = cloud_msg_of a"
      "topic fr = ''ocean/buoys/'' @ buoy a @ ''/telemetry''"
    unfolding last by blast
  have "device_id (cloud_msg fr) = ''B-'' @ str_nat n"
    unfolding fr(2) by (simp add: cloud_msg_of_def ba)
  moreover have "ai_alert (cloud_msg fr) = (fl (7 / 10) < whale_prob a)"
    unfolding fr(2) by (simp add: cloud_msg_of_def)
  moreover have "topic fr = ''ocean/buoys/'' @ (''B-'' @ str_nat n) @ ''/telemetry''"
    unfolding fr(3) ba ..
  moreover have "render step (rows @ new_rows e step n) = Inr fr"
    unfolding df by (rule fr(1))
  ultimately have "render step (rows @ new_rows e step n) = Inr fr \<and> cloud_msg fr = cloud_msg_of a \<and>
    device_id (cloud_msg fr) = ''B-'' @ str_nat n \<and>
    ai_alert (cloud_msg fr) = (fl (7 / 10) < whale_prob a) \<and>
    topic fr = ''ocean/buoys/'' @ (''B-'' @ str_nat n) @ ''/telemetry''"
    using fr(2) by blast
  note shown = this [unfolded a_def]
  show ?thesis by (rule exI [where x = fr]) (rule shown)
qed

theorem payload_from_last_buoy_witness:
  "(1::nat) \<le> 3 \<and>
   (\<exists>fr. render 1 (sample_log @ new_rows steady_env 1 3) = Inr fr \<and>
    cloud_msg fr
      = cloud_msg_of (generate_buoy_reading 3 (clock steady_env 1 (3 - 1)) (rnd steady_env 1 (3 - 1))) \<and>
    device_id (cloud_msg fr) = ''B-'' @ str_nat 3 \<and>
    ai_alert (cloud_msg fr)
      = (fl (7 / 10)
          < whale_prob (generate_buoy_reading 3 (clock steady_env 1 (3 - 1)) (rnd steady_env 1 (3 - 1)))) \<and>
    topic fr = ''ocean/buoys/'' @ (''B-'' @ str_nat 3) @ ''/telemetry'')"
proof -
  have h1: "(1::nat) \<le> 3" by simp
  have h2: "\<forall>r\<in>set sample_log. time r < clock steady_env 1 (3 - 1)"
    by (simp add: sample_log_def calm_row_def loud_row_def steady_env_def)
  have h3: "\<forall>i<3 - 1. clock steady_env 1 i < clock steady_env 1 (3 - 1)"
    by (simp add: steady_env_def)
  show ?thesis by (rule conjI [OF h1 payload_from_last_buoy [OF h1 h2 h3]])
qed


text \<open>
  Claim C7. A run appends the new rows of each iteration and changes nothing else in the
  log: after \<open>T\<close> iterations with \<open>B\<close> buoys the log is the old log followed by
  \<open>T * B\<close> rows (so \<open>T * B\<close> rows from an empty log), and what iteration \<open>i\<close> showed,
  \<open>(i + 1) * B\<close> rows more than the old log, is a prefix of the final log.
\<close>

theorem log_append_only:
  assumes "1 \<le> num_buoys ui"
  shows "log_of (final (run_iot_buoy e ui st0))
      = log_after e (num_buoys ui) (log_of st0) [0..<length (frames (run_iot_buoy e ui st0))] \<and>
    take (length (log_of st0)) (log_of (final (run_iot_buoy e ui st0))) = log_of st0 \<and>
    length (log_of (final (run_iot_buoy e ui st0)))
      = length (log_of st0) + length (frames (run_iot_buoy e ui st0)) * num_buoys ui \<and>
    map total_signals (frames (run_iot_buoy e ui st0))
      = map (\<lambda>i. length (log_of st0) + Suc i * num_buoys ui)
          [0..<length (frames (run_iot_buoy e ui st0))] \<and>
    map csv_rows (frames (run_iot_buoy e ui st0))
      = map (\<lambda>i. take (length (log_of st0) + Suc i * num_buoys ui)
                 (log_of (final (run_iot_buoy e ui st0))))
          [0..<length (frames (run_iot_buoy e ui st0))]"
proof -
  define res where "res = run_iot_buoy e ui st0"
  define T where "T = length (frames res)"
  define B where "B = num_buoys ui"
  define rows where "rows = log_of st0"
  note r = run_frames [OF assms, where e = e and ?st0.0 = st0, folded res_def B_def rows_def]
  have fin: "log_of (final res) = log_after e B rows [0..<T]" using r(3) by (simp only: T_def)
  have len: "length (log_of (final res)) = length rows + T * B"
    unfolding fin by (rule log_after_length)
  have keep: "take (length rows) (log_of (final res)) = rows" unfolding fin by simp
  have frame: "csv_rows (frames res ! i) = take (length rows + Suc i * B) (log_of (final res)) \<and>
      total_signals (frames res ! i) = length rows + Suc i * B" if "i < T" for i
  proof -
    have "0 < length (log_after e B rows [0..<Suc i])"
      unfolding log_after_length using assms by (simp add: B_def)
    then have ne: "log_after e B rows [0..<Suc i] \<noteq> []"
      by (metis length_greater_0_conv)
    have "render i (log_after e B rows [0..<Suc i]) = Inr (frames res ! i)"
      using r(4) [of i] that by (simp only: T_def)
    with render_ok [OF ne, of i] have "csv_rows (frames res ! i) = log_after e B rows [0..<Suc i]"
      "total_signals (frames res ! i) = length (log_after e B rows [0..<Suc i])"
      by auto
    moreover have "log_after e B rows [0..<Suc i]
        = take (length rows + Suc i * B) (log_after e B rows [0..<T])"
      using that by (intro log_after_prefix) simp
    ultimately show ?thesis
      unfolding fin using log_after_length [where rows = rows and e = e and n = B and k = "Suc i"] by (simp only:)
  qed
  have sig: "map total_signals (frames res) = map (\<lambda>i. length rows + Suc i * B) [0..<T]"
    by (rule nth_equalityI) (simp_all add: T_def frame)
  have csv: "map csv_rows (frames res)
      = map (\<lambda>i. take (length rows + Suc i * B) (log_of (final res))) [0..<T]"
    by (rule nth_equalityI) (simp_all add: T_def frame)
  show ?thesis
    using fin keep len sig csv unfolding res_def T_def B_def rows_def by (intro conjI)
qed


lemma run_frame_step:
  assumes "1 \<le> num_buoys ui" and "i < length (frames (run_iot_buoy e ui st0))"
  shows "step_no (frames (run_iot_buoy e ui st0) ! i) = i"
proof -
  have "0 < length (log_after e (num_buoys ui) (log_of st0) [0..<Suc i])"
    unfolding log_after_length using assms(1) by simp
  then have ne: "log_after e (num_buoys ui) (log_of st0) [0..<Suc i] \<noteq> []"
    by (metis length_greater_0_conv)
  show ?thesis
    using render_ok [OF ne, of i] run_frames(4) [OF assms] by auto
qed

text \<open>
  Claim C9. The run returns after at most 50 iterations. The flag is read only after an
  iteration is complete: when the loop is entered it runs every step up to and including
  the first one during which the flag is cleared, and each of these iterations shows its
  whole frame, that of the log extended by its new rows.
\<close>

theorem loop_bounded_iterations_complete:
  assumes "1 \<le> num_buoys ui"
  shows "raised (run_iot_buoy e ui st0) = None \<and>
    length (frames (run_iot_buoy e ui st0)) \<le> 50 \<and>
    length (frames (run_iot_buoy e ui st0))
      = (if running (press_buttons ui (session_init st0)) = Some True
         then ticks_done e [0..<50] else 0) \<and>
    map Inr (frames (run_iot_buoy e ui st0))
      = map (\<lambda>i. render i (log_after e (num_buoys ui) (log_of st0) [0..<Suc i]))
          [0..<length (frames (run_iot_buoy e ui st0))] \<and>
    map step_no (frames (run_iot_buoy e ui st0))
      = [0..<length (frames (run_iot_buoy e ui st0))] \<and>
    running (final (run_iot_buoy e ui st0))
      = (if running (press_buttons ui (session_init st0)) = Some True
         then Some (length (takeWhile (\<lambda>s. flag_write e s \<noteq> Some False) [0..<50]) = 50)
         else Some False)"
proof -
  define res where "res = run_iot_buoy e ui st0"
  note r = run_frames [OF assms, where e = e and ?st0.0 = st0, folded res_def]
  have count: "length (frames res)
      = (if running (press_buttons ui (session_init st0)) = Some True
         then ticks_done e [0..<50] else 0)"
  proof (cases "running (press_buttons ui (session_init st0)) = Some True")
    case True
    have "length (map Inr (frames res) :: (py_error + frame) list) = ticks_done e [0..<50]"
      unfolding res_def run_loop_char(3) [OF assms True] by (simp only: length_map length_upt)
    then show ?thesis using True by simp
  next
    case False
    then show ?thesis by (simp add: res_def run_skipped)
  qed
  have flag: "running (final res)
      = (if running (press_buttons ui (session_init st0)) = Some True
         then Some (length (takeWhile (\<lambda>s. flag_write e s \<noteq> Some False) [0..<50]) = 50)
         else Some False)"
  proof (cases "running (press_buttons ui (session_init st0)) = Some True")
    case True
    then show ?thesis unfolding res_def run_loop_char(4) [OF assms True] by simp
  next
    case False
    moreover obtain b where "running (press_buttons ui (session_init st0)) = Some b"
      using buttons_running by blast
    ultimately show ?thesis by (simp add: res_def run_skipped)
  qed
  have renders: "map Inr (frames res)
      = map (\<lambda>i. render i (log_after e (num_buoys ui) (log_of st0) [0..<Suc i]))
          [0..<length (frames res)]"
    by (rule nth_equalityI) (simp_all add: r(4) del: upt_Suc)
  have steps: "map step_no (frames res) = [0..<length (frames res)]"
    by (rule nth_equalityI) (simp_all add: res_def run_frame_step [OF assms])
  show ?thesis
    using r(1,2) count renders steps flag unfolding res_def by (intro conjI)
qed

text \<open>
  Claim C10. The buttons change only the running flag; the log is set to empty only when
  it is absent. A second run therefore appends to the log the first run left, and the
  length of the log after both is the sum of what the two runs appended and of what was
  there before.
\<close>

theorem start_keeps_log:
  assumes "1 \<le> num_buoys ui1" and "1 \<le> num_buoys ui2"
  shows "buoy_data (press_buttons ui st) = buoy_data st \<and>
    buoy_data (session_init st)
      = (case buoy_data st of None \<Rightarrow> Some [] | Some rows \<Rightarrow> Some rows) \<and>
    log_of (final (run_iot_buoy e2 ui2 (final (run_iot_buoy e1 ui1 st0))))
      = log_of (final (run_iot_buoy e1 ui1 st0)) @
        concat (map (\<lambda>s. new_rows e2 s (num_buoys ui2)) [0..<length (frames (run_iot_buoy e2 ui2 (final (run_iot_buoy e1 ui1 st0))))]) \<and>
    length (log_of (final (run_iot_buoy e2 ui2 (final (run_iot_buoy e1 ui1 st0)))))
      = length (log_of st0) + length (frames (run_iot_buoy e1 ui1 st0)) * num_buoys ui1
        + length (frames (run_iot_buoy e2 ui2 (final (run_iot_buoy e1 ui1 st0)))) * num_buoys ui2"
proof -
  define res1 where "res1 = run_iot_buoy e1 ui1 st0"
  define res2 where "res2 = run_iot_buoy e2 ui2 (final res1)"
  have first: "log_of (final res1)
      = log_after e1 (num_buoys ui1) (log_of st0) [0..<length (frames res1)]"
    unfolding res1_def by (rule run_frames(3) [OF assms(1)])
  have second: "log_of (final res2)
      = log_after e2 (num_buoys ui2) (log_of (final res1)) [0..<length (frames res2)]"
    unfolding res2_def by (rule run_frames(3) [OF assms(2)])
  have "length (log_of (final res1)) = length (log_of st0) + length (frames res1) * num_buoys ui1"
    unfolding first by (rule log_after_length)
  moreover have "length (log_of (final res2))
      = length (log_of (final res1)) + length (frames res2) * num_buoys ui2"
    unfolding second by (rule log_after_length)
  ultimately have total: "length (log_of (final res2))
      = length (log_of st0) + length (frames res1) * num_buoys ui1
        + length (frames res2) * num_buoys ui2"
    by simp
  have init: "buoy_data (session_init st)
      = (case buoy_data st of None \<Rightarrow> Some [] | Some rows \<Rightarrow> Some rows)"
    by (simp add: session_init_def)
  show ?thesis
    using buttons_log [of ui st] init second total unfolding res2_def res1_def by (intro conjI)
qed


theorem log_append_only_witness:
  "1 \<le> num_buoys start_ui \<and>
   (log_of (final (run_iot_buoy stopping_env start_ui fresh_session))
      = log_after stopping_env (num_buoys start_ui) (log_of fresh_session) [0..<length (frames (run_iot_buoy stopping_env start_ui fresh_session))] \<and>
    take (length (log_of fresh_session)) (log_of (final (run_iot_buoy stopping_env start_ui fresh_session))) = log_of fresh_session \<and>
    length (log_of (final (run_iot_buoy stopping_env start_ui fresh_session)))
      = length (log_of fresh_session) + length (frames (run_iot_buoy stopping_env start_ui fresh_session)) * num_buoys start_ui \<and>
    map total_signals (frames (run_iot_buoy stopping_env start_ui fresh_session))
      = map (\<lambda>i. length (log_of fresh_session) + Suc i * num_buoys start_ui)
          [0..<length (frames (run_iot_buoy stopping_env start_ui fresh_session))] \<and>
    map csv_rows (frames (run_iot_buoy stopping_env start_ui fresh_session))
      = map (\<lambda>i. take (length (log_of fresh_session) + Suc i * num_buoys start_ui)
                 (log_of (final (run_iot_buoy stopping_env start_ui fresh_session))))
          [0..<length (frames (run_iot_buoy stopping_env start_ui fresh_session))])"
proof -
  have h: "1 \<le> num_buoys start_ui" by (simp add: start_ui_def)
  show ?thesis by (rule conjI [OF h log_append_only [OF h]])
qed

lemma stopping_ticks: "ticks_done stopping_env [0..<50] = 2"
  by code_simp

lemma start_enters: "running (press_buttons start_ui (session_init fresh_session)) = Some True"
  by (simp add: press_buttons_def session_init_def start_ui_def fresh_session_def Let_def)

theorem loop_bounded_iterations_complete_witness:
  "1 \<le> num_buoys start_ui \<and>
   raised (run_iot_buoy stopping_env start_ui fresh_session) = None \<and>
   length (frames (run_iot_buoy stopping_env start_ui fresh_session)) = 2 \<and>
   map step_no (frames (run_iot_buoy stopping_env start_ui fresh_session)) = [0, 1] \<and>
   running (final (run_iot_buoy stopping_env start_ui fresh_session)) = Some False"
proof -
  have h: "1 \<le> num_buoys start_ui" by (simp add: start_ui_def)
  note t = loop_bounded_iterations_complete [OF h, of stopping_env fresh_session]
  have n: "length (frames (run_iot_buoy stopping_env start_ui fresh_session)) = 2"
    using t start_enters stopping_ticks by simp
  have "takeWhile (\<lambda>s. flag_write stopping_env s \<noteq> Some False) [0..<50] = [0]"
    by code_simp
  then have "running (final (run_iot_buoy stopping_env start_ui fresh_session)) = Some False"
    using t start_enters by simp
  moreover have "map step_no (frames (run_iot_buoy stopping_env start_ui fresh_session)) = [0, 1]"
    using t n by (simp add: upt_rec)
  ultimately show ?thesis using h t n by simp
qed

theorem start_keeps_log_witness:
  "1 \<le> num_buoys start_ui \<and>
   (buoy_data (press_buttons start_ui fresh_session) = buoy_data fresh_session \<and>
    buoy_data (session_init fresh_session)
      = (case buoy_data fresh_session of None \<Rightarrow> Some [] | Some rows \<Rightarrow> Some rows) \<and>
    log_of (final (run_iot_buoy steady_env start_ui (final (run_iot_buoy stopping_env start_ui fresh_session))))
      = log_of (final (run_iot_buoy stopping_env start_ui fresh_session)) @
        concat (map (\<lambda>s. new_rows steady_env s (num_buoys start_ui))
          [0..<length (frames (run_iot_buoy steady_env start_ui (final (run_iot_buoy stopping_env start_ui fresh_session))))]) \<and>
    length (log_of (final (run_iot_buoy steady_env start_ui (final (run_iot_buoy stopping_env start_ui fresh_session)))))
      = length (log_of fresh_session) + length (frames (run_iot_buoy stopping_env start_ui fresh_session)) * num_buoys start_ui
        + length (frames (run_iot_buoy steady_env start_ui (final (run_iot_buoy stopping_env start_ui fresh_session)))) * num_buoys start_ui)"
proof -
  have h: "1 \<le> num_buoys start_ui" by (simp add: start_ui_def)
  show ?thesis by (rule conjI [OF h start_keeps_log [OF h h]])
qed

end
